theory Spec2Isabelle
  imports Complex_Main "HOL-Library.Word" "HOL-Library.Monad_Syntax" "HOL-Library.Multiset"
begin

section \<open>Data model of \<open>HashSet\<close> (src/hash.cpp)\<close>

text \<open>
  Keys are C++ \<open>int\<close> values: 32-bit words read in two's complement by \<open>sint\<close>.

  \<open>allKeys\<close> is a \<open>std::list<int>\<close>. Its iterators are stable: an iterator names a list
  node, not a position, and stays valid while other nodes are inserted or erased. The list
  is therefore a sequence of nodes, each an address paired with its key, and an iterator
  is \<open>Some a\<close> for the node at address \<open>a\<close> or \<open>None\<close> for \<open>allKeys.end()\<close>.

  \<open>buckets\<close> is the \<open>std::vector<Iterator>\<close>. \<open>countElements\<close> and \<open>currentPrimeIndex\<close> are
  \<open>std::size_t\<close>; the increments and decrements of \<open>countElements\<close> wrap at \<open>2^64\<close> as written
  out below. \<open>maxLFactor\<close> is a \<open>float\<close>, and \<open>loadFactor()\<close>, \<open>insert\<close> and the setter of the
  maximal load factor compute and compare in \<open>float\<close>: the IEEE 754 single-precision
  values and their rounding are modelled in the first subsection.

  Every operation returns an \<open>option\<close>: \<open>None\<close> stands for undefined behaviour of the C++
  (a vector index out of range, an integer division by zero, an iterator that names no
  node of the list and is dereferenced or inserted before, \<open>std::distance\<close> to an
  unreachable iterator).
\<close>

subsection \<open>Single-precision floating point\<close>

text \<open>
  A \<open>float\<close> is a finite value, an infinity or a NaN; a finite value is given by the real
  number it denotes (the sign of a zero cannot be observed by the comparisons of this
  program). The comparisons \<open><\<close> and \<open><=\<close> are false whenever an operand is a NaN.
  Expressions of type \<open>float\<close> are evaluated in that format, each operation rounding
  its result to single precision (\<open>FLT_EVAL_METHOD\<close> 0).
\<close>

datatype float32 = Finite real | PlusInf | MinusInf | NaN

fun f32_less :: "float32 \<Rightarrow> float32 \<Rightarrow> bool" where
  "f32_less (Finite x) (Finite y) \<longleftrightarrow> x < y"
| "f32_less (Finite x) PlusInf \<longleftrightarrow> True"
| "f32_less MinusInf (Finite y) \<longleftrightarrow> True"
| "f32_less MinusInf PlusInf \<longleftrightarrow> True"
| "f32_less _ _ \<longleftrightarrow> False"

fun f32_le :: "float32 \<Rightarrow> float32 \<Rightarrow> bool" where
  "f32_le (Finite x) (Finite y) \<longleftrightarrow> x \<le> y"
| "f32_le NaN _ \<longleftrightarrow> False"
| "f32_le _ NaN \<longleftrightarrow> False"
| "f32_le MinusInf _ \<longleftrightarrow> True"
| "f32_le _ PlusInf \<longleftrightarrow> True"
| "f32_le _ _ \<longleftrightarrow> False"

text \<open>
  Rounding to the nearest integer, ties to the even one, for the significand.
\<close>

definition rne :: "real \<Rightarrow> int" where
  "rne y =
     (let f = \<lfloor>y\<rfloor>; d = y - of_int f
      in if d < 1 / 2 then f else if 1 / 2 < d then f + 1 else if even f then f else f + 1)"

text \<open>The binary exponent of a positive number: \<open>2^e <= x < 2^(e+1)\<close> for \<open>e = expo x\<close>.\<close>

function expo :: "real \<Rightarrow> int" where
  "expo x =
     (if x \<le> 0 then 0
      else if 2 \<le> x then expo (x / 2) + 1
      else if x < 1 then expo (2 * x) - 1
      else 0)"
  by pat_completeness auto
termination
proof (relation "measure (\<lambda>x. if 1 \<le> x then nat \<lfloor>x\<rfloor> else nat \<lfloor>1 / x\<rfloor> + 1)")
  show "wf (measure (\<lambda>x::real. if 1 \<le> x then nat \<lfloor>x\<rfloor> else nat \<lfloor>1 / x\<rfloor> + 1))"
    by simp
next
  fix x :: real
  assume "\<not> x \<le> 0" and x: "2 \<le> x"
  have "real_of_int \<lfloor>x / 2\<rfloor> \<le> x / 2" by (rule of_int_floor_le)
  then have "real_of_int (\<lfloor>x / 2\<rfloor> + 1) \<le> x / 2 + 1" by simp
  also have "\<dots> \<le> x" using x by simp
  finally have "\<lfloor>x / 2\<rfloor> + 1 \<le> \<lfloor>x\<rfloor>" by (simp only: le_floor_iff)
  moreover have "0 \<le> \<lfloor>x / 2\<rfloor>" using x by simp
  ultimately have "nat \<lfloor>x / 2\<rfloor> < nat \<lfloor>x\<rfloor>" by linarith
  then show "(x / 2, x) \<in> measure (\<lambda>x. if 1 \<le> x then nat \<lfloor>x\<rfloor> else nat \<lfloor>1 / x\<rfloor> + 1)"
    using x by simp
next
  fix x :: real
  assume pos: "\<not> x \<le> 0" and "\<not> 2 \<le> x" and x: "x < 1"
  have inv: "1 < 1 / x" using pos x by simp
  show "(2 * x, x) \<in> measure (\<lambda>x. if 1 \<le> x then nat \<lfloor>x\<rfloor> else nat \<lfloor>1 / x\<rfloor> + 1)"
  proof (cases "1 \<le> 2 * x")
    case True
    have "\<lfloor>2 * x\<rfloor> = 1" using True x by (simp add: floor_eq_iff)
    moreover have "1 \<le> \<lfloor>1 / x\<rfloor>" using inv by (simp add: le_floor_iff)
    ultimately show ?thesis using True x by simp
  next
    case False
    define y where "y = 1 / x"
    have two: "2 \<le> y" using False pos by (simp add: y_def field_simps)
    have "real_of_int \<lfloor>y / 2\<rfloor> \<le> y / 2" by (rule of_int_floor_le)
    then have "real_of_int (\<lfloor>y / 2\<rfloor> + 1) \<le> y / 2 + 1" by simp
    also have "\<dots> \<le> y" using two by simp
    finally have "\<lfloor>y / 2\<rfloor> + 1 \<le> \<lfloor>y\<rfloor>" by (simp only: le_floor_iff)
    moreover have "0 \<le> \<lfloor>y / 2\<rfloor>" using two by simp
    ultimately have n: "nat \<lfloor>y / 2\<rfloor> < nat \<lfloor>y\<rfloor>" by linarith
    have eq: "1 / (2 * x) = y / 2" by (simp add: y_def)
    have lt: "nat \<lfloor>1 / (2 * x)\<rfloor> < nat \<lfloor>1 / x\<rfloor>"
      using n unfolding eq y_def[symmetric] .
    have small: "\<not> 1 \<le> x" "\<not> 1 \<le> 2 * x" using False x by simp_all
    show ?thesis unfolding in_measure if_not_P[OF small(1)] if_not_P[OF small(2)]
      using lt by simp
  qed
qed

declare expo.simps [simp del]

text \<open>
  Rounding to nearest, ties to even, with a significand of 24 bits: a unit in the last
  place of \<open>x\<close> is \<open>2^(expo x - 23)\<close>. The program rounds only the conversions of
  \<open>std::size_t\<close> values and the quotients of two such floats; these are 0 or lie between
  \<open>2^-64\<close> and \<open>2^64\<close>, inside the range of the normal numbers, so neither overflow nor
  gradual underflow occurs and no argument is negative.
\<close>

definition f32_round :: "real \<Rightarrow> real" where
  "f32_round x =
     (if x \<le> 0 then 0
      else let u = 2 powi (expo x - 23) in real_of_int (rne (x / u)) * u)"

text \<open>\<open>static_cast<float>(n)\<close>, and the conversion of an integer operand of a \<open>float\<close> division.\<close>

definition f32_of_nat :: "nat \<Rightarrow> real" where
  "f32_of_nat n = f32_round (real n)"

text \<open>
  \<open>static_cast<float>(n) / c\<close>: \<open>c\<close> is converted to \<open>float\<close> and the quotient is rounded. The
  quotient by zero is a NaN for \<open>0 / 0\<close> and infinite otherwise.
\<close>

definition f32_ratio :: "nat \<Rightarrow> nat \<Rightarrow> real" where
  "f32_ratio n c = f32_round (f32_of_nat n / f32_of_nat c)"

definition f32_div :: "nat \<Rightarrow> nat \<Rightarrow> float32" where
  "f32_div n c =
     (if c = 0 then (if n = 0 then NaN else PlusInf) else Finite (f32_ratio n c))"

subsection \<open>The aggregate\<close>

type_synonym key = "32 word"
type_synonym node = "nat \<times> key"
type_synonym iterator = "nat option"

record hashset =
  allKeys :: "node list"
  buckets :: "iterator list"
  countElements :: nat
  maxLFactor :: float32
  currentPrimeIndex :: nat

text \<open>
  The table \<open>sizes\<close> is declared in hash.hpp, which is not part of the sources at hand;
  it is a parameter of every operation that reads it.
\<close>

subsection \<open>Vectors, list nodes and iterators\<close>

definition at_index :: "'a list \<Rightarrow> nat \<Rightarrow> 'a option" where
  "at_index xs i = (if i < length xs then Some (xs ! i) else None)"

text \<open>The nodes from the one an iterator names up to the end of the list.\<close>

definition from_it :: "node list \<Rightarrow> iterator \<Rightarrow> node list option" where
  "from_it ns it =
     (case it of
        None \<Rightarrow> Some []
      | Some a \<Rightarrow> (case dropWhile (\<lambda>n. fst n \<noteq> a) ns of [] \<Rightarrow> None | m # ms \<Rightarrow> Some (m # ms)))"

text \<open>The iterator to the first node of a sequence of nodes (\<open>end()\<close> when there is none).\<close>

definition it_of :: "node list \<Rightarrow> iterator" where
  "it_of ns = (case ns of [] \<Rightarrow> None | m # _ \<Rightarrow> Some (fst m))"

text \<open>
  An address that no node of the list occupies, for a newly allocated node. Address 0 is
  never allocated: it is kept for an iterator that names no node and is not
  \<open>allKeys.end()\<close> either, the \<open>end()\<close> of another list object that has been destroyed.
\<close>

definition stale_end :: iterator where
  "stale_end = Some 0"

fun fresh_addr :: "node list \<Rightarrow> nat" where
  "fresh_addr [] = 1"
| "fresh_addr (n # ns) = max (Suc (fst n)) (fresh_addr ns)"

text \<open>\<open>std::list::insert(pos, key)\<close> with the new node given: it goes before \<open>pos\<close>.\<close>

definition list_insert :: "node list \<Rightarrow> iterator \<Rightarrow> node \<Rightarrow> node list option" where
  "list_insert ns pos n =
     (case pos of
        None \<Rightarrow> Some (ns @ [n])
      | Some a \<Rightarrow>
          if a \<in> fst ` set ns
          then Some (takeWhile (\<lambda>m. fst m \<noteq> a) ns @ n # dropWhile (\<lambda>m. fst m \<noteq> a) ns)
          else None)"

text \<open>
  \<open>std::distance(first, last)\<close> on list iterators counts the increments that lead from
  \<open>first\<close> to \<open>last\<close>; it is undefined when \<open>last\<close> is not reachable from \<open>first\<close>.
\<close>

definition position :: "node list \<Rightarrow> iterator \<Rightarrow> nat option" where
  "position ns it =
     (case it of
        None \<Rightarrow> Some (length ns)
      | Some a \<Rightarrow>
          if a \<in> fst ` set ns then Some (length (takeWhile (\<lambda>m. fst m \<noteq> a) ns)) else None)"

definition distance :: "node list \<Rightarrow> iterator \<Rightarrow> iterator \<Rightarrow> int option" where
  "distance ns it1 it2 =
     do { i \<leftarrow> position ns it1;
          j \<leftarrow> position ns it2;
          if i \<le> j then Some (int (j - i)) else None }"

subsection \<open>The bucket index\<close>

text \<open>\<open>static_cast<int>\<close> of a \<open>std::size_t\<close>: the low 32 bits, read in two's complement.\<close>

definition to_int :: "nat \<Rightarrow> int" where
  "to_int n = sint (word_of_nat n :: 32 word)"

text \<open>The C++ \<open>%\<close> on \<open>int\<close> truncates: the remainder has the sign of the dividend.\<close>

definition c_rem :: "int \<Rightarrow> int \<Rightarrow> int" where
  "c_rem a b = sgn a * (\<bar>a\<bar> mod \<bar>b\<bar>)"

text \<open>
  The body of \<open>HashSet::bucket\<close>, with the bucket count \<open>c\<close> given (\<open>rehash\<close> repeats the same
  three lines with the new bucket count):
  \<^verbatim>\<open>int mod = key % static_cast<int>(c); if (mod < 0) mod += c; return static_cast<std::size_t>(mod);\<close>
  The division is undefined for a divisor 0 and for \<open>INT_MIN % -1\<close>. \<open>mod += c\<close> adds in
  \<open>std::size_t\<close> and converts the sum back to \<open>int\<close>; the final cast of a negative \<open>mod\<close>
  wraps to \<open>2^64 + mod\<close>.
\<close>

definition bucket_index :: "nat \<Rightarrow> key \<Rightarrow> nat option" where
  "bucket_index c k =
     (let d = to_int c in
      if d = 0 \<or> (sint k = - (2 ^ 31) \<and> d = - 1) then None
      else
        let m = c_rem (sint k) d;
            m' = (if m < 0 then sint (word_of_int (m + int c) :: 32 word) else m)
        in Some (nat (m' mod 2 ^ 64)))"

definition bucket :: "hashset \<Rightarrow> key \<Rightarrow> nat option" where
  "bucket s k = bucket_index (length (buckets s)) k"

subsection \<open>Introspection\<close>

definition size_hs :: "hashset \<Rightarrow> nat" where
  "size_hs s = countElements s"

definition bucketCount :: "hashset \<Rightarrow> nat" where
  "bucketCount s = length (buckets s)"

text \<open>
  \<^verbatim>\<open>return bucketCount() > 0 ? static_cast<float>(countElements) / buckets.size() : 0.0f;\<close>
\<close>

definition loadFactor :: "hashset \<Rightarrow> float32" where
  "loadFactor s =
     (if bucketCount s > 0 then f32_div (countElements s) (length (buckets s)) else Finite 0)"

definition maxLoadFactor :: "hashset \<Rightarrow> float32" where
  "maxLoadFactor s = maxLFactor s"

text \<open>Iteration from \<open>begin()\<close> to \<open>end()\<close> walks \<open>allKeys\<close>.\<close>

definition iteration :: "hashset \<Rightarrow> key list" where
  "iteration s = map snd (allKeys s)"

subsection \<open>Construction\<close>

text \<open>The default constructor; \<open>sizes[0]\<close> is undefined for an empty table.\<close>

definition HashSet :: "nat list \<Rightarrow> hashset option" where
  "HashSet sizes =
     (if sizes = [] then None
      else Some \<lparr>allKeys = [], buckets = replicate (sizes ! 0) None, countElements = 0,
                 maxLFactor = Finite 1, currentPrimeIndex = 0\<rparr>)"

subsection \<open>Lookup\<close>

text \<open>
  The loop of \<open>contains\<close>, over the nodes from \<open>buckets[b]\<close> on:
  \<^verbatim>\<open>while (it != allKeys.end() && bucket(*it) == b) { if (*it == key) return true; ++it; } return false;\<close>
\<close>

fun contains_loop :: "nat \<Rightarrow> nat \<Rightarrow> key \<Rightarrow> node list \<Rightarrow> bool option" where
  "contains_loop c b k [] = Some False"
| "contains_loop c b k (n # ns) =
     (case bucket_index c (snd n) of
        None \<Rightarrow> None
      | Some b' \<Rightarrow>
          if b' = b then (if snd n = k then Some True else contains_loop c b k ns)
          else Some False)"

definition contains :: "hashset \<Rightarrow> key \<Rightarrow> bool option" where
  "contains s k =
     do { b \<leftarrow> bucket s k;
          it \<leftarrow> at_index (buckets s) b;
          ns \<leftarrow> from_it (allKeys s) it;
          contains_loop (length (buckets s)) b k ns }"

text \<open>The loop of \<open>find\<close>: the same walk, returning the iterator.\<close>

fun find_loop :: "nat \<Rightarrow> nat \<Rightarrow> key \<Rightarrow> node list \<Rightarrow> iterator option" where
  "find_loop c b k [] = Some None"
| "find_loop c b k (n # ns) =
     (case bucket_index c (snd n) of
        None \<Rightarrow> None
      | Some b' \<Rightarrow>
          if b' = b then (if snd n = k then Some (Some (fst n)) else find_loop c b k ns)
          else Some None)"

definition find_key :: "hashset \<Rightarrow> key \<Rightarrow> iterator option" where
  "find_key s k =
     do { b \<leftarrow> bucket s k;
          it \<leftarrow> at_index (buckets s) b;
          ns \<leftarrow> from_it (allKeys s) it;
          find_loop (length (buckets s)) b k ns }"

subsection \<open>Rehash\<close>

text \<open>
  The choice of the new bucket count: \<open>sizes.back()\<close> and the current index unless the
  loop finds a first entry \<open>sizes[i] >= newSize\<close>.
\<close>

definition select_size :: "nat list \<Rightarrow> nat \<Rightarrow> nat \<Rightarrow> (nat \<times> nat) option" where
  "select_size sizes cur newSize =
     (if sizes = [] then None
      else (case List.find (\<lambda>i. sizes ! i \<ge> newSize) [0..<length sizes] of
              Some i \<Rightarrow> Some (sizes ! i, i)
            | None \<Rightarrow> Some (last sizes, cur)))"

text \<open>
  The first loop of \<open>rehash\<close>: each key of \<open>allKeys\<close>, in order, is pushed to the back of
  its temporary list, in a newly allocated node (address \<open>a\<close>, then \<open>a + 1\<close>, and so on).
\<close>

fun fill_temp :: "nat \<Rightarrow> node list \<Rightarrow> node list list \<Rightarrow> nat \<Rightarrow> node list list option" where
  "fill_temp c [] temp a = Some temp"
| "fill_temp c (n # ns) temp a =
     (case bucket_index c (snd n) of
        None \<Rightarrow> None
      | Some b \<Rightarrow>
          if b < length temp
          then fill_temp c ns (temp[b := temp ! b @ [(a, snd n)]]) (Suc a)
          else None)"

text \<open>
  One round of the second loop: a non-empty temporary list is spliced to the end of
  \<open>allKeys\<close>, \<open>buckets[b]\<close> is set to its first node and \<open>countElements\<close> grows by its size.
\<close>

definition splice_bucket ::
  "node list list \<Rightarrow> nat \<Rightarrow> node list \<times> iterator list \<times> nat \<Rightarrow> node list \<times> iterator list \<times> nat"
where
  "splice_bucket temp b acc =
     (case acc of (ks, bs, cnt) \<Rightarrow>
        if temp ! b \<noteq> []
        then (ks @ temp ! b, bs[b := it_of (temp ! b)], (cnt + length (temp ! b)) mod 2 ^ 64)
        else (ks, bs, cnt))"

definition rehash :: "nat list \<Rightarrow> hashset \<Rightarrow> nat \<Rightarrow> hashset option" where
  "rehash sizes s newSize =
     do { (newBCount, newPrimeIndex) \<leftarrow> select_size sizes (currentPrimeIndex s) newSize;
          temp \<leftarrow> fill_temp newBCount (allKeys s) (replicate newBCount []) (fresh_addr (allKeys s));
          let (ks, bs, cnt) =
                fold (splice_bucket temp) [0..<newBCount] ([], replicate newBCount None, 0)
          in Some (s\<lparr>allKeys := ks, buckets := bs, countElements := cnt,
                      currentPrimeIndex := newPrimeIndex\<rparr>) }"

subsection \<open>Insert\<close>

text \<open>
  The end of the run of bucket \<open>b\<close>, over the nodes from \<open>buckets[b]\<close> on:
  \<^verbatim>\<open>while (pos != allKeys.end() && bucket(*pos) == b) ++pos;\<close>
\<close>

fun run_end :: "nat \<Rightarrow> nat \<Rightarrow> node list \<Rightarrow> iterator option" where
  "run_end c b [] = Some None"
| "run_end c b (n # ns) =
     (case bucket_index c (snd n) of
        None \<Rightarrow> None
      | Some b' \<Rightarrow> if b' = b then run_end c b ns else Some (Some (fst n)))"

text \<open>
  The search for the next non-empty bucket, over the entries of \<open>buckets\<close> from index
  \<open>b + 1\<close> on: the first entry that is not \<open>end()\<close>, or \<open>end()\<close> when there is none.
\<close>

fun next_nonempty :: "iterator list \<Rightarrow> iterator" where
  "next_nonempty [] = None"
| "next_nonempty (None # bs) = next_nonempty bs"
| "next_nonempty (Some a # bs) = Some a"

definition insert_pos :: "hashset \<Rightarrow> nat \<Rightarrow> iterator \<Rightarrow> iterator option" where
  "insert_pos s b cur =
     (case cur of
        Some a \<Rightarrow> do { ns \<leftarrow> from_it (allKeys s) cur; run_end (length (buckets s)) b ns }
      | None \<Rightarrow> Some (next_nonempty (drop (b + 1) (buckets s))))"

text \<open>The part of \<open>insert\<close> after the growth check.\<close>

definition insert_node :: "hashset \<Rightarrow> key \<Rightarrow> hashset option" where
  "insert_node s k =
     do { b \<leftarrow> bucket s k;
          cur \<leftarrow> at_index (buckets s) b;
          pos \<leftarrow> insert_pos s b cur;
          let a = fresh_addr (allKeys s);
          ks \<leftarrow> list_insert (allKeys s) pos (a, k);
          upd \<leftarrow> (if cur = None then Some True
                  else do { d \<leftarrow> distance ks cur (Some a); Some (d < 0) });
          Some (s\<lparr>allKeys := ks,
                  buckets := (if upd then (buckets s)[b := Some a] else buckets s),
                  countElements := (countElements s + 1) mod 2 ^ 64\<rparr>) }"

text \<open>
  The growth test, a comparison of two \<open>float\<close> values:
  \<^verbatim>\<open>if (loadFactor() > maxLFactor && currentPrimeIndex + 1 < sizes.size())\<close>
\<close>

definition needs_growth :: "nat list \<Rightarrow> hashset \<Rightarrow> bool" where
  "needs_growth sizes s \<longleftrightarrow>
     f32_less (maxLFactor s) (loadFactor s) \<and> currentPrimeIndex s + 1 < length sizes"

definition insert_key :: "nat list \<Rightarrow> hashset \<Rightarrow> key \<Rightarrow> hashset option" where
  "insert_key sizes s k =
     do { present \<leftarrow> contains s k;
          if present then Some s
          else do {
            s1 \<leftarrow> (if needs_growth sizes s
                   then rehash sizes s (sizes ! (currentPrimeIndex s + 1))
                   else Some s);
            insert_node s1 k } }"

subsection \<open>Erase\<close>

text \<open>
  \<open>erase(Iterator)\<close>: the bucket pointer moves to the next node when the erased node
  heads its run, or becomes \<open>end()\<close>; the result pairs the new state with the returned
  iterator.
\<close>

definition erase_it :: "hashset \<Rightarrow> iterator \<Rightarrow> (hashset \<times> iterator) option" where
  "erase_it s it =
     (case it of
        None \<Rightarrow> Some (s, None)
      | Some a \<Rightarrow>
          do { ns \<leftarrow> from_it (allKeys s) it;
               b \<leftarrow> bucket s (snd (hd ns));
               cur \<leftarrow> at_index (buckets s) b;
               bs \<leftarrow> (if cur = it
                      then (case tl ns of
                              [] \<Rightarrow> Some ((buckets s)[b := None])
                            | m # _ \<Rightarrow>
                                do { b' \<leftarrow> bucket s (snd m);
                                     Some ((buckets s)[b := (if b' = b then Some (fst m) else None)]) })
                      else Some (buckets s));
               Some (s\<lparr>allKeys := filter (\<lambda>n. fst n \<noteq> a) (allKeys s),
                       buckets := bs,
                       countElements := (if countElements s = 0 then 2 ^ 64 - 1
                                         else countElements s - 1)\<rparr>,
                     it_of (tl ns)) })"

definition erase :: "hashset \<Rightarrow> key \<Rightarrow> hashset option" where
  "erase s k =
     do { it \<leftarrow> find_key s k;
          if it \<noteq> None then map_option fst (erase_it s it) else Some s }"

subsection \<open>Setting the maximal load factor\<close>

text \<open>
  The threshold is stored; when \<open>loadFactor() > maxLFactor\<close>, the loop over
  \<open>i = currentPrimeIndex + 1, ..., sizes.size() - 1\<close> stops at the first \<open>i\<close> with
  \<^verbatim>\<open>static_cast<float>(countElements) / sizes[i] <= maxLFactor\<close>
  and rehashes to \<open>sizes[i]\<close>. Both tests compare \<open>float\<close> values.
\<close>

definition set_maxLoadFactor :: "nat list \<Rightarrow> hashset \<Rightarrow> float32 \<Rightarrow> hashset option" where
  "set_maxLoadFactor sizes s maxLoad =
     (let s1 = s\<lparr>maxLFactor := maxLoad\<rparr> in
      if f32_less (maxLFactor s1) (loadFactor s1)
      then (case List.find (\<lambda>i. f32_le (f32_div (countElements s1) (sizes ! i)) (maxLFactor s1))
                   [currentPrimeIndex s1 + 1..<length sizes] of
              Some i \<Rightarrow> rehash sizes s1 (sizes ! i)
            | None \<Rightarrow> Some s1)
      else Some s1)"


subsection \<open>Copy construction\<close>

text \<open>
  The copy constructor copies \<open>allKeys\<close> and the scalar fields, resizes \<open>buckets\<close> to the
  other's bucket count, all \<open>end()\<close> of the new list, and scans the copy:
  \<^verbatim>\<open>std::size_t b = bucket(*it); if (buckets[b] == allKeys.end()) buckets[b] = it;\<close>
  The nodes of the copy are new allocations in a list of their own; the model names
  them by the numbers of the nodes they copy.
\<close>

fun rebuild :: "nat \<Rightarrow> node list \<Rightarrow> iterator list \<Rightarrow> iterator list option" where
  "rebuild c [] bs = Some bs"
| "rebuild c (n # ns) bs =
     (case bucket_index c (snd n) of
        None \<Rightarrow> None
      | Some b \<Rightarrow>
          (case at_index bs b of
             None \<Rightarrow> None
           | Some cur \<Rightarrow> rebuild c ns (if cur = None then bs[b := Some (fst n)] else bs)))"

definition copy_set :: "hashset \<Rightarrow> hashset option" where
  "copy_set other =
     do { bs \<leftarrow> rebuild (length (buckets other)) (allKeys other)
                  (replicate (length (buckets other)) None);
          Some \<lparr>allKeys = allKeys other, buckets = bs, countElements = countElements other,
                maxLFactor = maxLFactor other, currentPrimeIndex = currentPrimeIndex other\<rparr> }"

subsection \<open>Assignment\<close>

text \<open>
  \<^verbatim>\<open>HashSet& HashSet::operator=(HashSet other)\<close> takes its argument by value: \<open>other\<close> is a
  copy made by the copy constructor, and its empty buckets hold \<open>other.allKeys.end()\<close>. The
  five \<open>std::swap\<close> calls exchange the fields of the target with those of \<open>other\<close>, and the
  earlier content of the target is destroyed with \<open>other\<close> on return.

  Swapping two lists keeps the iterators to nodes valid: they name the same nodes, which
  now belong to the target. For an iterator that holds \<open>end()\<close>, the C++ standard leaves
  open which of the two lists it refers to afterwards. In libstdc++ the sentinel that
  \<open>end()\<close> names is a member of the list object and does not move, and this is what the
  model follows: the swapped bucket table keeps \<open>other.allKeys.end()\<close> in every empty
  bucket, an iterator into an object that no longer exists once \<open>operator=\<close> has
  returned. It is not equal to the \<open>allKeys.end()\<close> of the target.
\<close>

definition assign :: "hashset \<Rightarrow> hashset option" where
  "assign other =
     do { tmp \<leftarrow> copy_set other;
          Some (tmp\<lparr>buckets := map (\<lambda>it. if it = None then stale_end else it) (buckets tmp)\<rparr>) }"

subsection \<open>Sequences of operations\<close>

text \<open>
  The public operations that change or replace the set. \<open>Copy\<close> continues with a copy
  constructed from the current set, \<open>Assign\<close> with a set to which the current set has
  been assigned (what the target held before is dropped by the assignment).
\<close>

datatype operation =
  Insert key | Erase key | EraseAt iterator | Rehash nat | SetMaxLoadFactor float32 | Copy
  | Assign

fun apply_op :: "nat list \<Rightarrow> hashset \<Rightarrow> operation \<Rightarrow> hashset option" where
  "apply_op sizes s (Insert k) = insert_key sizes s k"
| "apply_op sizes s (Erase k) = erase s k"
| "apply_op sizes s (EraseAt it) = map_option fst (erase_it s it)"
| "apply_op sizes s (Rehash n) = rehash sizes s n"
| "apply_op sizes s (SetMaxLoadFactor m) = set_maxLoadFactor sizes s m"
| "apply_op sizes s Copy = copy_set s"
| "apply_op sizes s Assign = assign s"

fun run :: "nat list \<Rightarrow> hashset \<Rightarrow> operation list \<Rightarrow> hashset option" where
  "run sizes s [] = Some s"
| "run sizes s (x # xs) =
     (case apply_op sizes s x of None \<Rightarrow> None | Some s' \<Rightarrow> run sizes s' xs)"

text \<open>A fresh instance after a sequence of operations.\<close>

definition run_fresh :: "nat list \<Rightarrow> operation list \<Rightarrow> hashset option" where
  "run_fresh sizes xs = (case HashSet sizes of None \<Rightarrow> None | Some s \<Rightarrow> run sizes s xs)"

section \<open>Specification vocabulary\<close>

text \<open>The mathematical bucket index: the remainder of the key in \<open>[0, c)\<close>.\<close>

definition bidx :: "nat \<Rightarrow> key \<Rightarrow> nat" where
  "bidx c k = nat (sint k mod int c)"

text \<open>
  The Sizing Table: not empty, strictly ascending, its entries positive and at most
  \<open>2^31\<close>, the bucket counts for which \<open>static_cast<int>\<close> keeps the absolute value.
\<close>

definition wf_sizes :: "nat list \<Rightarrow> bool" where
  "wf_sizes sizes \<longleftrightarrow>
     sizes \<noteq> [] \<and> sorted_wrt (<) sizes \<and> list_all (\<lambda>c. 0 < c \<and> c \<le> 2 ^ 31) sizes"

text \<open>The bucket table that a node sequence determines: each bucket's first node.\<close>

definition heads :: "nat \<Rightarrow> node list \<Rightarrow> iterator list" where
  "heads c ns = map (\<lambda>b. it_of (filter (\<lambda>n. bidx c (snd n) = b) ns)) [0..<c]"

text \<open>
  The invariant of the chain structure: node addresses and keys are distinct (I1), the
  keys are in non-decreasing bucket order (I2, I3), the bucket table holds the run heads
  (I4), and the count is the length of the sequence (I5).
\<close>

definition chained :: "hashset \<Rightarrow> bool" where
  "chained s \<longleftrightarrow>
     distinct (map fst (allKeys s)) \<and>
     distinct (map snd (allKeys s)) \<and>
     sorted (map (\<lambda>n. bidx (length (buckets s)) (snd n)) (allKeys s)) \<and>
     buckets s = heads (length (buckets s)) (allKeys s) \<and>
     countElements s = length (allKeys s)"

text \<open>
  The invariant of the aggregate: the chain structure, a current index inside the table,
  and a bucket count that is the table entry at the current index or the largest
  entry (I6).
\<close>

definition invar :: "nat list \<Rightarrow> hashset \<Rightarrow> bool" where
  "invar sizes s \<longleftrightarrow>
     currentPrimeIndex s < length sizes \<and>
     (length (buckets s) = sizes ! currentPrimeIndex s \<or> length (buckets s) = last sizes) \<and>
     chained s"

text \<open>
  The nodes that \<open>rehash\<close> allocates for the keys of a sequence, from address \<open>a\<close> on, and
  their distribution over \<open>c\<close> temporary lists.
\<close>

fun renum :: "nat \<Rightarrow> node list \<Rightarrow> node list" where
  "renum a [] = []"
| "renum a (n # ns) = (a, snd n) # renum (Suc a) ns"

definition parts :: "nat \<Rightarrow> node list \<Rightarrow> node list list" where
  "parts c ns = map (\<lambda>b. filter (\<lambda>n. bidx c (snd n) = b) ns) [0..<c]"

text \<open>
  The candidate that the setter of the maximal load factor is specified to choose: the
  first table entry past the current bucket count whose ratio, computed in \<open>float\<close>, meets
  the threshold.
\<close>

definition first_candidate :: "nat list \<Rightarrow> hashset \<Rightarrow> float32 \<Rightarrow> nat option" where
  "first_candidate sizes s m =
     List.find (\<lambda>x. bucketCount s < x \<and> f32_le (f32_div (size_hs s) x) m) sizes"

text \<open>
  The state in which every bucket entry that holds a stale \<open>end()\<close> holds the \<open>end()\<close> of
  \<open>allKeys\<close> instead.
\<close>

definition own_end :: "hashset \<Rightarrow> hashset" where
  "own_end s = s\<lparr>buckets := map (\<lambda>it. if it = stale_end then None else it) (buckets s)\<rparr>"

text \<open>
  The invariant of the states that the public operations reach, assignment included:
  no node lies at the reserved address, and the invariant holds up to the stale \<open>end()\<close>
  entries, which can only stand in empty buckets.
\<close>

definition invar_stale :: "nat list \<Rightarrow> hashset \<Rightarrow> bool" where
  "invar_stale sizes s \<longleftrightarrow>
     invar sizes (own_end s) \<and> list_all (\<lambda>n. fst n \<noteq> 0) (allKeys s)"

section \<open>The bucket index function\<close>

lemma bidx_less: "0 < c \<Longrightarrow> bidx c k < c"
  by (simp add: bidx_def nat_less_iff)

lemma to_int_small: "c < 2 ^ 31 \<Longrightarrow> to_int c = int c"
  unfolding to_int_def
  by (simp add: signed_of_nat signed_take_bit_int_eq_self)

lemma to_int_top: "to_int (2 ^ 31) = - (2 ^ 31)"
  unfolding to_int_def by simp

lemma c_rem_nonneg:
  "0 \<le> a \<Longrightarrow> 0 < b \<Longrightarrow> c_rem a b = a mod b"
  "0 \<le> a \<Longrightarrow> 0 < b \<Longrightarrow> c_rem a (- b) = a mod b"
  by (cases "a = 0"; simp add: c_rem_def)+

lemma c_rem_neg:
  "a < 0 \<Longrightarrow> 0 < b \<Longrightarrow> c_rem a b = - ((- a) mod b)"
  "a < 0 \<Longrightarrow> 0 < b \<Longrightarrow> c_rem a (- b) = - ((- a) mod b)"
  by (simp_all add: c_rem_def)

lemma neg_mod_pos:
  fixes a b :: int
  shows "a mod b = (if (- a) mod b = 0 then 0 else b - (- a) mod b)"
proof -
  have "a mod b = (- (- a)) mod b" by simp
  also have "\<dots> = (if (- a) mod b = 0 then 0 else b - (- a) mod b)"
    by (rule zmod_zminus1_eq_if)
  finally show ?thesis .
qed

lemma sint_small: "0 \<le> x \<Longrightarrow> x < 2 ^ 31 \<Longrightarrow> sint (word_of_int x :: 32 word) = x"
  by (simp add: signed_of_int signed_take_bit_int_eq_self)

lemma int_le_top: "c \<le> 2 ^ 31 \<Longrightarrow> int c \<le> 2 ^ 31"
  by simp

text \<open>The sign correction: the corrected truncated remainder is the remainder in \<open>[0, c)\<close>.\<close>

lemma corrected_rem:
  assumes d: "d = int c \<or> d = - int c" and c: "0 < c" "c \<le> 2 ^ 31"
  shows "(if c_rem (sint k) d < 0 then sint (word_of_int (c_rem (sint k) d + int c) :: 32 word)
          else c_rem (sint k) d) = sint k mod int c"
proof (cases "0 \<le> sint k")
  case True
  have "c_rem (sint k) d = sint k mod int c"
    using d c(1) True c_rem_nonneg[of "sint k" "int c"] by auto
  moreover have "0 \<le> sint k mod int c" using c(1) by simp
  ultimately show ?thesis by simp
next
  case False
  then have neg: "sint k < 0" by simp
  have le: "int c \<le> 2 ^ 31" using c(2) by (rule int_le_top)
  have m: "c_rem (sint k) d = - ((- sint k) mod int c)"
    using d c(1) neg c_rem_neg[of "sint k" "int c"] by auto
  have q0: "0 \<le> (- sint k) mod int c" and qc: "(- sint k) mod int c < int c"
    using c(1) by simp_all
  show ?thesis
  proof (cases "(- sint k) mod int c = 0")
    case True
    then show ?thesis using m by (simp add: neg_mod_pos[of "sint k" "int c"])
  next
    case nz: False
    have r: "sint k mod int c = int c - (- sint k) mod int c"
      using nz by (simp add: neg_mod_pos[of "sint k" "int c"])
    have "sint (word_of_int (- ((- sint k) mod int c) + int c) :: 32 word)
            = - ((- sint k) mod int c) + int c"
      using q0 qc le nz by (intro sint_small) linarith+
    then show ?thesis using m r nz q0 by simp
  qed
qed

lemma bucket_index_abs:
  assumes d: "d = int c \<or> d = - int c" and c: "0 < c" "c \<le> 2 ^ 31"
  shows "(let m = c_rem (sint k) d;
              m' = (if m < 0 then sint (word_of_int (m + int c) :: 32 word) else m)
          in nat (m' mod 2 ^ 64)) = bidx c k"
proof -
  let ?r = "sint k mod int c"
  have le: "int c \<le> 2 ^ 31" using c(2) by (rule int_le_top)
  have r0: "0 \<le> ?r" and rc: "?r < int c" using c(1) by simp_all
  have r31: "?r < 2 ^ 31" using rc le by linarith
  have "(2::int) ^ 31 \<le> 2 ^ 64" by (rule power_increasing) simp_all
  then have r64: "?r < 2 ^ 64" using r31 by linarith
  have triv: "?r mod 2 ^ 64 = ?r" using r0 r64 by (rule mod_pos_pos_trivial)
  show ?thesis unfolding Let_def bidx_def corrected_rem[OF d c] triv ..
qed

lemma to_int_cases:
  assumes c: "0 < c" "c \<le> 2 ^ 31"
  shows "to_int c = int c \<or> to_int c = - int c"
proof (cases "c = 2 ^ 31")
  case True
  then show ?thesis using to_int_top by simp
next
  case False
  then have "c < 2 ^ 31" using c by simp
  then show ?thesis by (simp add: to_int_small)
qed

lemma bucket_index_defined:
  assumes c: "0 < c" "c \<le> 2 ^ 31"
  shows "bucket_index c k =
           Some (let m = c_rem (sint k) (to_int c);
                     m' = (if m < 0 then sint (word_of_int (m + int c) :: 32 word) else m)
                 in nat (m' mod 2 ^ 64))"
proof -
  have d: "to_int c = int c \<or> to_int c = - int c" using c by (rule to_int_cases)
  have n0: "to_int c \<noteq> 0" using d c(1) by auto
  have n1: "\<not> (sint k = - (2 ^ 31) \<and> to_int c = - 1)"
  proof
    assume a: "sint k = - (2 ^ 31) \<and> to_int c = - 1"
    then have "c = 1" using d by auto
    then have "to_int c = 1" by (simp add: to_int_small)
    then show False using a by simp
  qed
  show ?thesis
    unfolding bucket_index_def using n0 n1 by (simp only: Let_def if_False simp_thms)
qed

lemma bucket_index_ok:
  assumes c: "0 < c" "c \<le> 2 ^ 31"
  shows "bucket_index c k = Some (bidx c k)"
  using bucket_index_defined[OF c, of k] bucket_index_abs[OF to_int_cases[OF c] c, of k]
  by (simp only:)

lemma sign_correction:
  fixes a c :: int
  assumes c: "0 < c"
  shows "a mod c = (if c_rem a c < 0 then c_rem a c + c else c_rem a c)"
proof (cases "0 \<le> a")
  case True
  then show ?thesis using c by (simp add: c_rem_nonneg not_less)
next
  case False
  then have neg: "a < 0" by simp
  have q0: "0 \<le> (- a) mod c" using c by simp
  show ?thesis
  proof (cases "(- a) mod c = 0")
    case True
    then show ?thesis using neg c by (simp add: c_rem_neg neg_mod_pos[of a c])
  next
    case False
    then have "0 < (- a) mod c" using q0 by linarith
    then show ?thesis using neg c False
      by (simp add: c_rem_neg neg_mod_pos[of a c])
  qed
qed

text \<open>
  Claim C4, as amended. For every key and every bucket count \<open>c\<close> with \<open>0 < c \<le> 2^31\<close>,
  \<open>bucket\<close> returns, without fault, a value in \<open>[0, c)\<close>: the remainder of the key modulo
  \<open>c\<close>, which is the truncated remainder of the C++ \<open>%\<close> with \<open>c\<close> added when it is
  negative. With bucket count 7, \<open>bucket(-5) == 2\<close>.
\<close>

theorem C4_bucket_index_in_range:
  assumes "0 < bucketCount s" and "bucketCount s \<le> 2 ^ 31"
  shows "\<exists>b. bucket s k = Some b \<and> b < bucketCount s
            \<and> int b = sint k mod int (bucketCount s)
            \<and> int b = (if c_rem (sint k) (int (bucketCount s)) < 0
                       then c_rem (sint k) (int (bucketCount s)) + int (bucketCount s)
                       else c_rem (sint k) (int (bucketCount s)))
            \<and> (bucketCount s = 7 \<longrightarrow> bucket s (- 5) = Some 2)"
proof -
  let ?c = "length (buckets s)"
  have c: "0 < ?c" "?c \<le> 2 ^ 31" using assms by (simp_all add: bucketCount_def)
  have b: "bucket s k = Some (bidx ?c k)"
    unfolding bucket_def by (rule bucket_index_ok[OF c])
  have r0: "0 \<le> sint k mod int ?c" using c(1) by simp
  have i: "int (bidx ?c k) = sint k mod int ?c"
    unfolding bidx_def using r0 by simp
  have corr: "sint k mod int ?c =
               (if c_rem (sint k) (int ?c) < 0 then c_rem (sint k) (int ?c) + int ?c
                else c_rem (sint k) (int ?c))"
    by (rule sign_correction) (use c(1) in simp)
  have seven: "?c = 7 \<longrightarrow> bucket s (- 5) = Some 2"
    by (simp add: bucket_def bucket_index_def to_int_def c_rem_def)
  show ?thesis
    using b i corr seven bidx_less[OF c(1), of k] by (simp add: bucketCount_def)
qed

theorem C4_bucket_index_in_range_witness:
  "\<exists>b. bucket \<lparr>allKeys = [], buckets = replicate 7 None, countElements = 0,
               maxLFactor = Finite 1, currentPrimeIndex = 0\<rparr> (- 5) = Some b \<and> b = 2"
  using C4_bucket_index_in_range
          [of "\<lparr>allKeys = [], buckets = replicate 7 None, countElements = 0,
                maxLFactor = Finite 1, currentPrimeIndex = 0\<rparr>" "- 5"]
  by (simp add: bucketCount_def)

text \<open>
  The claim as stated fails for a bucket count above \<open>2^31\<close>: with 3000000000 buckets the
  cast to \<open>int\<close> gives \<open>-1294967296\<close>, \<open>-5 % -1294967296\<close> is \<open>-5\<close>, the correction wraps to
  \<open>-1294967301\<close>, and the index returned for the key \<open>-5\<close> is \<open>2^64 - 1294967301\<close>.
\<close>

theorem C4_counterexample:
  "bucket \<lparr>allKeys = [], buckets = replicate 3000000000 None, countElements = 0,
           maxLFactor = Finite 1, currentPrimeIndex = 0\<rparr> (- 5) = Some 18446744072414584315
   \<and> \<not> (18446744072414584315 :: nat) < 3000000000"
  by (simp add: bucket_def bucket_index_def to_int_def c_rem_def)


section \<open>List nodes and iterators\<close>

lemma fresh_addr_greater: "n \<in> set ns \<Longrightarrow> fst n < fresh_addr ns"
  by (induction ns) auto

lemma fresh_addr_notin: "fresh_addr ns \<notin> fst ` set ns"
  using fresh_addr_greater by fastforce

lemma it_of_append: "it_of (xs @ ys) = (if xs = [] then it_of ys else it_of xs)"
  by (cases xs) (simp_all add: it_of_def)

lemma it_of_simps [simp]: "it_of [] = None" "it_of (m # ms) = Some (fst m)"
  by (simp_all add: it_of_def)

lemma dropWhile_addr:
  assumes "distinct (map fst (xs @ m # ms))"
  shows "dropWhile (\<lambda>n. fst n \<noteq> fst m) (xs @ m # ms) = m # ms"
proof -
  have "fst m \<notin> fst ` set xs" using assms by auto
  then have "\<And>x. x \<in> set xs \<Longrightarrow> fst x \<noteq> fst m" by (metis imageI)
  then show ?thesis by (simp add: dropWhile_append2)
qed

lemma takeWhile_addr:
  assumes "distinct (map fst (xs @ m # ms))"
  shows "takeWhile (\<lambda>n. fst n \<noteq> fst m) (xs @ m # ms) = xs"
proof -
  have "fst m \<notin> fst ` set xs" using assms by auto
  then have "\<And>x. x \<in> set xs \<Longrightarrow> fst x \<noteq> fst m" by (metis imageI)
  then show ?thesis by (simp add: takeWhile_append2)
qed

lemma from_it_it_of:
  assumes "distinct (map fst (xs @ ys))"
  shows "from_it (xs @ ys) (it_of ys) = Some ys"
proof (cases ys)
  case Nil
  then show ?thesis by (simp add: from_it_def)
next
  case (Cons m ms)
  then show ?thesis using dropWhile_addr[of xs m ms] assms by (simp add: from_it_def)
qed

lemma list_insert_it_of:
  assumes "distinct (map fst (xs @ ys))"
  shows "list_insert (xs @ ys) (it_of ys) n = Some (xs @ n # ys)"
proof (cases ys)
  case Nil
  then show ?thesis by (simp add: list_insert_def)
next
  case (Cons m ms)
  then show ?thesis
    using dropWhile_addr[of xs m ms] takeWhile_addr[of xs m ms] assms
    by (simp add: list_insert_def)
qed

lemma position_it_of:
  assumes "distinct (map fst (xs @ ys))"
  shows "position (xs @ ys) (it_of ys) = Some (length xs)"
proof (cases ys)
  case Nil
  then show ?thesis by (simp add: position_def)
next
  case (Cons m ms)
  then show ?thesis
    using takeWhile_addr[of xs m ms] assms
    by (simp add: position_def)
qed


lemma sorted_decomp:
  fixes f :: "'a \<Rightarrow> nat"
  assumes "sorted (map f ns)"
  shows "ns = filter (\<lambda>n. f n < b) ns @ filter (\<lambda>n. f n = b) ns @ filter (\<lambda>n. b < f n) ns"
  using assms
proof (induction ns)
  case Nil
  then show ?case by simp
next
  case (Cons x xs)
  then have ge: "\<forall>y\<in>set xs. f x \<le> f y" and sx: "sorted (map f xs)" by auto
  note IH = Cons.IH[OF sx]
  consider "f x < b" | "f x = b" | "b < f x" by linarith
  then show ?case
  proof cases
    case 1
    then show ?thesis using IH by simp
  next
    case 2
    then have "filter (\<lambda>n. f n < b) xs = []" using ge by (auto simp: filter_empty_conv)
    then show ?thesis using 2 IH by simp
  next
    case 3
    then have "filter (\<lambda>n. f n < b) xs = []" "filter (\<lambda>n. f n = b) xs = []"
      using ge by (auto simp: filter_empty_conv)
    then show ?thesis using 3 IH by simp
  qed
qed

lemma run_end_run:
  assumes c: "0 < c" "c \<le> 2 ^ 31"
    and "\<forall>n\<in>set rn. bidx c (snd n) = b" and "\<forall>n\<in>set hi. bidx c (snd n) \<noteq> b"
  shows "run_end c b (rn @ hi) = Some (it_of hi)"
  using assms(3)
proof (induction rn)
  case Nil
  show ?case using assms(4) by (cases hi) (simp_all add: bucket_index_ok[OF c])
next
  case (Cons n rn)
  then show ?case by (simp add: bucket_index_ok[OF c])
qed

lemma contains_loop_run:
  assumes c: "0 < c" "c \<le> 2 ^ 31"
    and "\<forall>n\<in>set rn. bidx c (snd n) = b" and "\<forall>n\<in>set hi. bidx c (snd n) \<noteq> b"
  shows "contains_loop c b k (rn @ hi) = Some (k \<in> snd ` set rn)"
  using assms(3)
proof (induction rn)
  case Nil
  show ?case using assms(4) by (cases hi) (simp_all add: bucket_index_ok[OF c])
next
  case (Cons n rn)
  then show ?case by (auto simp add: bucket_index_ok[OF c])
qed

lemma find_loop_run:
  assumes c: "0 < c" "c \<le> 2 ^ 31"
    and "\<forall>n\<in>set rn. bidx c (snd n) = b" and "\<forall>n\<in>set hi. bidx c (snd n) \<noteq> b"
  shows "find_loop c b k (rn @ hi) = Some (it_of (filter (\<lambda>n. snd n = k) rn))"
  using assms(3)
proof (induction rn)
  case Nil
  show ?case using assms(4) by (cases hi) (simp_all add: bucket_index_ok[OF c])
next
  case (Cons n rn)
  then show ?case by (auto simp add: bucket_index_ok[OF c])
qed

lemma heads_length [simp]: "length (heads c ns) = c"
  by (simp add: heads_def)

lemma heads_nth: "b < c \<Longrightarrow> heads c ns ! b = it_of (filter (\<lambda>n. bidx c (snd n) = b) ns)"
  by (simp add: heads_def)

lemma hd_filter_sorted:
  fixes f :: "'a \<Rightarrow> nat"
  assumes "sorted (map f ns)" and "filter (\<lambda>n. f n = j) ns \<noteq> []"
  shows "hd (filter (\<lambda>n. j \<le> f n) ns) = hd (filter (\<lambda>n. f n = j) ns)"
  using assms
proof (induction ns)
  case Nil
  then show ?case by simp
next
  case (Cons x xs)
  then have ge: "\<forall>y\<in>set xs. f x \<le> f y" and sx: "sorted (map f xs)" by auto
  consider "f x < j" | "f x = j" | "j < f x" by linarith
  then show ?case
  proof cases
    case 1
    then show ?thesis using Cons.IH[OF sx] Cons.prems(2) by simp
  next
    case 2
    then show ?thesis by simp
  next
    case 3
    then have "filter (\<lambda>n. f n = j) (x # xs) = []" using ge by (auto simp: filter_empty_conv)
    then show ?thesis using Cons.prems(2) by simp
  qed
qed

lemma next_nonempty_from:
  assumes "sorted (map (\<lambda>n. bidx c (snd n)) ns)" and "0 < c"
  shows "next_nonempty (map (\<lambda>b. it_of (filter (\<lambda>n. bidx c (snd n) = b) ns)) [j..<c])
           = it_of (filter (\<lambda>n. j \<le> bidx c (snd n)) ns)"
proof (induction "c - j" arbitrary: j)
  case 0
  then have "filter (\<lambda>n. j \<le> bidx c (snd n)) ns = []"
    using bidx_less[OF assms(2)] by (auto simp: filter_empty_conv not_le intro: less_le_trans)
  then show ?case using 0 by simp
next
  case (Suc d)
  then have j: "j < c" and d: "d = c - Suc j" by auto
  let ?f = "\<lambda>n. bidx c (snd n)"
  have upt: "[j..<c] = j # [Suc j..<c]" using j by (simp add: upt_conv_Cons)
  show ?case
  proof (cases "filter (\<lambda>n. ?f n = j) ns = []")
    case True
    then have "\<forall>n\<in>set ns. ?f n \<noteq> j" by (simp add: filter_empty_conv)
    then have "filter (\<lambda>n. j \<le> ?f n) ns = filter (\<lambda>n. Suc j \<le> ?f n) ns"
      by (intro filter_cong) auto
    then show ?thesis using True Suc.hyps(1)[OF d] upt by simp
  next
    case False
    then obtain m ms where m: "filter (\<lambda>n. ?f n = j) ns = m # ms" by (cases "filter (\<lambda>n. ?f n = j) ns") auto
    have ne: "filter (\<lambda>n. j \<le> ?f n) ns \<noteq> []"
      using False by (auto simp: filter_empty_conv)
    have "hd (filter (\<lambda>n. j \<le> ?f n) ns) = m"
      using hd_filter_sorted[OF assms(1) False] m by simp
    then have "it_of (filter (\<lambda>n. j \<le> ?f n) ns) = Some (fst m)"
      using ne by (cases "filter (\<lambda>n. j \<le> ?f n) ns") simp_all
    then show ?thesis using m upt by simp
  qed
qed

lemma next_nonempty_heads:
  assumes "sorted (map (\<lambda>n. bidx c (snd n)) ns)" and "0 < c"
  shows "next_nonempty (drop (b + 1) (heads c ns)) = it_of (filter (\<lambda>n. b < bidx c (snd n)) ns)"
proof -
  have "drop (b + 1) (heads c ns) = map (\<lambda>b. it_of (filter (\<lambda>n. bidx c (snd n) = b) ns)) [b + 1..<c]"
    by (simp add: heads_def drop_map)
  moreover have "filter (\<lambda>n. b + 1 \<le> bidx c (snd n)) ns = filter (\<lambda>n. b < bidx c (snd n)) ns"
    by (intro filter_cong) auto
  ultimately show ?thesis using next_nonempty_from[OF assms, of "b + 1"] by simp
qed

section \<open>Lookup under the invariant\<close>

lemma key_count_bound:
  fixes ks :: "key list"
  assumes "distinct ks"
  shows "length ks \<le> 2 ^ 32"
proof -
  have "length ks = card (set ks)" using assms by (simp add: distinct_card)
  also have "\<dots> \<le> card (UNIV :: key set)" by (rule card_mono) simp_all
  also have "\<dots> = 2 ^ 32" by (simp add: card_word)
  finally show ?thesis .
qed

lemma size_t_no_wrap:
  fixes n :: nat
  assumes "n \<le> 2 ^ 33"
  shows "n mod 2 ^ 64 = n"
proof -
  have "(2::nat) ^ 33 < 2 ^ 64" by (rule power_strict_increasing) simp_all
  then have "n < 2 ^ 64" using assms by linarith
  then show ?thesis by (rule mod_less)
qed

lemma bucket_lookup:
  assumes ch: "chained s" and c: "0 < length (buckets s)" and b: "b < length (buckets s)"
  defines "f \<equiv> \<lambda>n. bidx (length (buckets s)) (snd n)"
  defines "rn \<equiv> filter (\<lambda>n. f n = b) (allKeys s)"
  defines "hi \<equiv> filter (\<lambda>n. b < f n) (allKeys s)"
  shows "at_index (buckets s) b = Some (it_of rn)"
    and "from_it (allKeys s) (it_of rn) = Some (if rn = [] then [] else rn @ hi)"
proof -
  have "buckets s ! b = it_of rn"
    using ch b heads_nth[of b "length (buckets s)" "allKeys s"]
    unfolding chained_def rn_def f_def by simp
  then show "at_index (buckets s) b = Some (it_of rn)" using b by (simp add: at_index_def)
  let ?lo = "filter (\<lambda>n. f n < b) (allKeys s)"
  have srt: "sorted (map f (allKeys s))" using ch unfolding chained_def f_def by simp
  have dec: "allKeys s = ?lo @ rn @ hi"
    unfolding rn_def hi_def by (rule sorted_decomp[OF srt])
  have d: "distinct (map fst (?lo @ (rn @ hi)))"
    using ch dec unfolding chained_def by simp
  show "from_it (allKeys s) (it_of rn) = Some (if rn = [] then [] else rn @ hi)"
  proof (cases "rn = []")
    case True
    then show ?thesis by (simp add: from_it_def)
  next
    case False
    then have "it_of rn = it_of (rn @ hi)" by (simp add: it_of_append)
    then show ?thesis using from_it_it_of[OF d] dec False by simp
  qed
qed

lemma contains_correct:
  assumes ch: "chained s" and c: "0 < length (buckets s)" "length (buckets s) \<le> 2 ^ 31"
  shows "contains s k = Some (k \<in> set (iteration s))"
proof -
  let ?c = "length (buckets s)"
  let ?f = "\<lambda>n. bidx ?c (snd n)"
  let ?b = "bidx ?c k"
  let ?rn = "filter (\<lambda>n. ?f n = ?b) (allKeys s)"
  let ?hi = "filter (\<lambda>n. ?b < ?f n) (allKeys s)"
  have b: "?b < ?c" by (rule bidx_less[OF c(1)])
  have bk: "bucket s k = Some ?b" unfolding bucket_def by (rule bucket_index_ok[OF c])
  note lk = bucket_lookup[OF ch c(1) b]
  have loop: "contains_loop ?c ?b k (if ?rn = [] then [] else ?rn @ ?hi) = Some (k \<in> snd ` set ?rn)"
  proof (cases "?rn = []")
    case True
    then show ?thesis by simp
  next
    case False
    have "contains_loop ?c ?b k (?rn @ ?hi) = Some (k \<in> snd ` set ?rn)"
      by (rule contains_loop_run[OF c]) auto
    then show ?thesis using False by simp
  qed
  have "(k \<in> snd ` set ?rn) = (k \<in> set (iteration s))"
    by (auto simp: iteration_def)
  then show ?thesis
    unfolding contains_def using bk lk loop by simp
qed

lemma find_key_correct:
  assumes ch: "chained s" and c: "0 < length (buckets s)" "length (buckets s) \<le> 2 ^ 31"
  shows "find_key s k = Some (it_of (filter (\<lambda>n. snd n = k) (allKeys s)))"
proof -
  let ?c = "length (buckets s)"
  let ?f = "\<lambda>n. bidx ?c (snd n)"
  let ?b = "bidx ?c k"
  let ?rn = "filter (\<lambda>n. ?f n = ?b) (allKeys s)"
  let ?hi = "filter (\<lambda>n. ?b < ?f n) (allKeys s)"
  have b: "?b < ?c" by (rule bidx_less[OF c(1)])
  have bk: "bucket s k = Some ?b" unfolding bucket_def by (rule bucket_index_ok[OF c])
  note lk = bucket_lookup[OF ch c(1) b]
  have loop: "find_loop ?c ?b k (if ?rn = [] then [] else ?rn @ ?hi)
                = Some (it_of (filter (\<lambda>n. snd n = k) ?rn))"
  proof (cases "?rn = []")
    case True
    then show ?thesis by simp
  next
    case False
    have "find_loop ?c ?b k (?rn @ ?hi) = Some (it_of (filter (\<lambda>n. snd n = k) ?rn))"
      by (rule find_loop_run[OF c]) auto
    then show ?thesis using False by simp
  qed
  have "filter (\<lambda>n. snd n = k) ?rn = filter (\<lambda>n. snd n = k) (allKeys s)"
    unfolding filter_filter by (intro filter_cong) auto
  then show ?thesis
    unfolding find_key_def using bk lk loop by simp
qed

section \<open>Insertion of a new key\<close>

lemma heads_insert:
  assumes b: "bidx c k = b"
    and lo: "\<forall>n\<in>set lo. bidx c (snd n) < b"
    and rn: "\<forall>n\<in>set rn. bidx c (snd n) = b"
    and hi: "\<forall>n\<in>set hi. b < bidx c (snd n)"
  shows "heads c (lo @ rn @ (a, k) # hi) =
           (if rn = [] then (heads c (lo @ rn @ hi))[b := Some a] else heads c (lo @ rn @ hi))"
proof -
  have flo: "\<And>j. b \<le> j \<Longrightarrow> filter (\<lambda>n. bidx c (snd n) = j) lo = []"
    using lo by (auto simp: filter_empty_conv)
  have fhi: "\<And>j. j \<le> b \<Longrightarrow> filter (\<lambda>n. bidx c (snd n) = j) hi = []"
    using hi by (auto simp: filter_empty_conv)
  have frn: "filter (\<lambda>n. bidx c (snd n) = b) rn = rn"
    using rn by (simp add: filter_id_conv)
  have at_b: "it_of (filter (\<lambda>n. bidx c (snd n) = b) (lo @ rn @ (a, k) # hi))
                = (if rn = [] then Some a else it_of rn)"
    using flo[of b] fhi[of b] frn b by (simp add: it_of_append)
  have at_b_old: "it_of (filter (\<lambda>n. bidx c (snd n) = b) (lo @ rn @ hi)) = it_of rn"
    using flo[of b] fhi[of b] frn by simp
  have other: "\<And>j. j \<noteq> b \<Longrightarrow> filter (\<lambda>n. bidx c (snd n) = j) (lo @ rn @ (a, k) # hi)
                  = filter (\<lambda>n. bidx c (snd n) = j) (lo @ rn @ hi)"
    using b by auto
  show ?thesis
  proof (rule nth_equalityI)
    show "length (heads c (lo @ rn @ (a, k) # hi)) =
          length (if rn = [] then (heads c (lo @ rn @ hi))[b := Some a] else heads c (lo @ rn @ hi))"
      by simp
  next
    fix j assume "j < length (heads c (lo @ rn @ (a, k) # hi))"
    then have j: "j < c" by simp
    show "heads c (lo @ rn @ (a, k) # hi) ! j =
          (if rn = [] then (heads c (lo @ rn @ hi))[b := Some a] else heads c (lo @ rn @ hi)) ! j"
    proof (cases "j = b")
      case True
      then show ?thesis using j at_b at_b_old by (simp add: heads_nth)
    next
      case False
      then show ?thesis using j other[OF False] by (simp add: heads_nth)
    qed
  qed
qed

lemma insert_node_correct:
  assumes ch: "chained s" and c: "0 < length (buckets s)" "length (buckets s) \<le> 2 ^ 31"
    and new: "k \<notin> set (iteration s)"
  defines "f \<equiv> \<lambda>n. bidx (length (buckets s)) (snd n)"
  defines "b \<equiv> bidx (length (buckets s)) k"
  defines "lo \<equiv> filter (\<lambda>n. f n < b) (allKeys s)"
  defines "rn \<equiv> filter (\<lambda>n. f n = b) (allKeys s)"
  defines "hi \<equiv> filter (\<lambda>n. b < f n) (allKeys s)"
  defines "a \<equiv> fresh_addr (allKeys s)"
  shows "insert_node s k =
           Some (s\<lparr>allKeys := lo @ rn @ (a, k) # hi,
                   buckets := heads (length (buckets s)) (lo @ rn @ (a, k) # hi),
                   countElements := length (allKeys s) + 1\<rparr>)"
proof -
  let ?c = "length (buckets s)"
  let ?ks = "lo @ rn @ (a, k) # hi"
  have b: "b < ?c" unfolding b_def by (rule bidx_less[OF c(1)])
  have bk: "bucket s k = Some b" unfolding bucket_def b_def by (rule bucket_index_ok[OF c])
  have cur: "at_index (buckets s) b = Some (it_of rn)"
    and sfx: "from_it (allKeys s) (it_of rn) = Some (if rn = [] then [] else rn @ hi)"
    using bucket_lookup[OF ch c(1) b] unfolding rn_def hi_def f_def by simp_all
  have srt: "sorted (map f (allKeys s))" using ch unfolding chained_def f_def by simp
  have dec: "allKeys s = lo @ rn @ hi"
    unfolding lo_def rn_def hi_def by (rule sorted_decomp[OF srt])
  have dist: "distinct (map fst (allKeys s))" using ch unfolding chained_def by simp
  have hds: "buckets s = heads ?c (allKeys s)" using ch unfolding chained_def by simp
  have cnt: "countElements s = length (allKeys s)" using ch unfolding chained_def by simp
  have a_new: "a \<notin> fst ` set (allKeys s)" unfolding a_def by (rule fresh_addr_notin)
  have "distinct (map fst (lo @ rn @ hi))" "a \<notin> fst ` set (lo @ rn @ hi)"
    using dist a_new dec by simp_all
  then have dist': "distinct (map fst ?ks)" by auto
  have pos: "insert_pos s b (it_of rn) = Some (it_of hi)"
  proof (cases rn)
    case Nil
    have "next_nonempty (drop (b + 1) (heads ?c (allKeys s))) = it_of hi"
      unfolding hi_def f_def using srt c(1) unfolding f_def by (rule next_nonempty_heads)
    then show ?thesis using Nil hds by (simp add: insert_pos_def)
  next
    case (Cons m ms)
    have "run_end ?c b (rn @ hi) = Some (it_of hi)"
      by (rule run_end_run[OF c]) (auto simp: rn_def hi_def f_def)
    then show ?thesis using Cons sfx by (simp add: insert_pos_def)
  qed
  have ins: "list_insert (allKeys s) (it_of hi) (a, k) = Some ?ks"
    using list_insert_it_of[of "lo @ rn" hi "(a, k)"] dist dec by simp
  have upd: "(if it_of rn = None then Some True
              else do { d \<leftarrow> distance ?ks (it_of rn) (Some a); Some (d < 0) })
             = Some (rn = [])"
  proof (cases rn)
    case Nil
    then show ?thesis by simp
  next
    case (Cons m ms)
    have "it_of (rn @ (a, k) # hi) = it_of rn" using Cons by (simp add: it_of_append)
    then have p1: "position ?ks (it_of rn) = Some (length lo)"
      using position_it_of[of lo "rn @ (a, k) # hi"] dist' by simp
    have p2: "position ?ks (Some a) = Some (length (lo @ rn))"
      using position_it_of[of "lo @ rn" "(a, k) # hi"] dist' by simp
    show ?thesis using Cons p1 p2 by (simp add: distance_def)
  qed
  have hd': "(if rn = [] then (buckets s)[b := Some a] else buckets s) = heads ?c ?ks"
  proof -
    have H: "heads ?c ?ks = (if rn = [] then (heads ?c (lo @ rn @ hi))[b := Some a]
                          else heads ?c (lo @ rn @ hi))"
      by (rule heads_insert) (auto simp: b_def lo_def rn_def hi_def f_def)
    have h0: "heads ?c (lo @ rn @ hi) = buckets s" using hds dec by simp
    show ?thesis unfolding H h0 by (rule refl)
  qed
  have "length (map snd (allKeys s)) \<le> 2 ^ 32"
    using ch unfolding chained_def by (intro key_count_bound) simp
  moreover have "(2::nat) ^ 32 + 1 \<le> 2 ^ 33" by simp
  ultimately have "length (allKeys s) + 1 \<le> 2 ^ 33" by simp
  then have wrap: "(length (allKeys s) + 1) mod 2 ^ 64 = length (allKeys s) + 1"
    by (rule size_t_no_wrap)
  show ?thesis
    unfolding insert_node_def
    using bk cur pos ins upd hd' wrap cnt
    by (simp add: a_def[symmetric] del: One_nat_def)
qed

lemma sorted_map_filter:
  fixes f :: "'a \<Rightarrow> nat"
  shows "sorted (map f xs) \<Longrightarrow> sorted (map f (filter P xs))"
  by (induction xs) auto

lemma insert_node_chained:
  assumes ch: "chained s" and c: "0 < length (buckets s)" "length (buckets s) \<le> 2 ^ 31"
    and new: "k \<notin> set (iteration s)"
  shows "\<exists>s'. insert_node s k = Some s' \<and> chained s'
            \<and> length (buckets s') = length (buckets s)
            \<and> set (iteration s') = Set.insert k (set (iteration s))
            \<and> countElements s' = countElements s + 1
            \<and> maxLFactor s' = maxLFactor s
            \<and> currentPrimeIndex s' = currentPrimeIndex s"
proof -
  let ?c = "length (buckets s)"
  let ?f = "\<lambda>n. bidx ?c (snd n)"
  let ?b = "bidx ?c k"
  let ?lo = "filter (\<lambda>n. ?f n < ?b) (allKeys s)"
  let ?rn = "filter (\<lambda>n. ?f n = ?b) (allKeys s)"
  let ?hi = "filter (\<lambda>n. ?b < ?f n) (allKeys s)"
  let ?a = "fresh_addr (allKeys s)"
  let ?ks = "?lo @ ?rn @ (?a, k) # ?hi"
  let ?s' = "s\<lparr>allKeys := ?ks, buckets := heads ?c ?ks, countElements := length (allKeys s) + 1\<rparr>"
  have eq: "insert_node s k = Some ?s'" by (rule insert_node_correct[OF ch c new])
  have srt: "sorted (map ?f (allKeys s))" using ch unfolding chained_def by simp
  have dec: "allKeys s = ?lo @ ?rn @ ?hi" by (rule sorted_decomp[OF srt])
  have dist: "distinct (map fst (allKeys s))" and distk: "distinct (map snd (allKeys s))"
    and cnt: "countElements s = length (allKeys s)"
    using ch unfolding chained_def by simp_all
  have a_new: "?a \<notin> fst ` set (allKeys s)" by (rule fresh_addr_notin)
  have k_new: "k \<notin> snd ` set (allKeys s)" using new by (simp add: iteration_def)
  have "distinct (map fst (?lo @ ?rn @ ?hi))" "?a \<notin> fst ` set (?lo @ ?rn @ ?hi)"
    using dist a_new dec by simp_all
  then have d1: "distinct (map fst ?ks)" by auto
  have "distinct (map snd (?lo @ ?rn @ ?hi))" "k \<notin> snd ` set (?lo @ ?rn @ ?hi)"
    using distk k_new dec by simp_all
  then have d2: "distinct (map snd ?ks)" by auto
  have s3: "sorted (map ?f ?ks)"
    using sorted_map_filter[OF srt, of "\<lambda>n. ?f n < ?b"]
      sorted_map_filter[OF srt, of "\<lambda>n. ?f n = ?b"]
      sorted_map_filter[OF srt, of "\<lambda>n. ?b < ?f n"]
    by (auto simp: sorted_append)
  have len: "length ?ks = length (allKeys s) + 1"
  proof -
    have "length (allKeys s) = length (?lo @ ?rn @ ?hi)" using dec by simp
    then show ?thesis by simp
  qed
  have st: "set ?ks = Set.insert (?a, k) (set (allKeys s))"
  proof -
    have "set (allKeys s) = set (?lo @ ?rn @ ?hi)" using dec by simp
    then show ?thesis by auto
  qed
  define ks where "ks = ?ks"
  have "chained (s\<lparr>allKeys := ks, buckets := heads ?c ks, countElements := length (allKeys s) + 1\<rparr>)"
    unfolding chained_def using d1 d2 s3 len unfolding ks_def[symmetric] by simp
  moreover have "snd ` set ks = Set.insert k (snd ` set (allKeys s))"
    using st unfolding ks_def[symmetric] by simp
  ultimately show ?thesis using eq cnt unfolding ks_def[symmetric]
    by (simp add: iteration_def)
qed

section \<open>Erasure\<close>

lemma filter_addr:
  assumes "distinct (map fst (xs @ m # ys))"
  shows "filter (\<lambda>n. fst n \<noteq> fst m) (xs @ m # ys) = xs @ ys"
proof -
  have "fst m \<notin> fst ` set xs" "fst m \<notin> fst ` set ys" using assms by auto
  then have "\<And>x. x \<in> set xs \<Longrightarrow> fst x \<noteq> fst m" "\<And>x. x \<in> set ys \<Longrightarrow> fst x \<noteq> fst m"
    by (metis imageI)+
  then show ?thesis by (simp add: filter_id_conv)
qed

lemma heads_erase:
  assumes srt: "sorted (map (\<lambda>n. bidx c (snd n)) (xs @ m # ys))"
    and dist: "distinct (map fst (xs @ m # ys))"
    and b: "b = bidx c (snd m)"
  shows "heads c (xs @ ys) =
           (if heads c (xs @ m # ys) ! b = Some (fst m) \<and> b < c
            then (heads c (xs @ m # ys))
                   [b := (case ys of [] \<Rightarrow> None
                          | y # _ \<Rightarrow> if bidx c (snd y) = b then Some (fst y) else None)]
            else heads c (xs @ m # ys))"
proof -
  let ?f = "\<lambda>n. bidx c (snd n)"
  let ?old = "heads c (xs @ m # ys)"
  let ?v = "case ys of [] \<Rightarrow> None | y # _ \<Rightarrow> if ?f y = b then Some (fst y) else None"
  have other: "\<And>j. j \<noteq> b \<Longrightarrow> filter (\<lambda>n. ?f n = j) (xs @ m # ys) = filter (\<lambda>n. ?f n = j) (xs @ ys)"
    using b by auto
  have old_b: "it_of (filter (\<lambda>n. ?f n = b) (xs @ m # ys))
                 = (if filter (\<lambda>n. ?f n = b) xs = [] then Some (fst m)
                    else it_of (filter (\<lambda>n. ?f n = b) xs))"
    using b by (simp add: it_of_append)
  have ge: "\<forall>y\<in>set ys. b \<le> ?f y" using srt b by (auto simp: sorted_append)
  have sys: "sorted (map ?f ys)" using srt by (auto simp: sorted_append)
  have v: "it_of (filter (\<lambda>n. ?f n = b) ys) = ?v"
  proof (cases ys)
    case Nil
    then show ?thesis by simp
  next
    case (Cons y ys')
    show ?thesis
    proof (cases "?f y = b")
      case True
      then show ?thesis using Cons by simp
    next
      case False
      then have "\<forall>z\<in>set ys. b < ?f z" using ge sys Cons by fastforce
      then have "filter (\<lambda>n. ?f n = b) ys = []" by (auto simp: filter_empty_conv)
      then show ?thesis using Cons False by simp
    qed
  qed
  have hd_ne: "filter (\<lambda>n. ?f n = b) xs \<noteq> [] \<Longrightarrow> it_of (filter (\<lambda>n. ?f n = b) xs) \<noteq> Some (fst m)"
  proof -
    assume ne: "filter (\<lambda>n. ?f n = b) xs \<noteq> []"
    then obtain x xs' where x: "filter (\<lambda>n. ?f n = b) xs = x # xs'"
      by (cases "filter (\<lambda>n. ?f n = b) xs") auto
    then have "x \<in> set xs" by (metis filter_is_subset list.set_intros(1) subsetD)
    moreover have "fst m \<notin> fst ` set xs" using dist by auto
    ultimately have "fst x \<noteq> fst m" by (metis imageI)
    then show ?thesis using x by simp
  qed
  show ?thesis
  proof (rule nth_equalityI)
    show "length (heads c (xs @ ys)) =
          length (if ?old ! b = Some (fst m) \<and> b < c then ?old[b := ?v] else ?old)"
      by simp
  next
    fix j assume "j < length (heads c (xs @ ys))"
    then have j: "j < c" by simp
    show "heads c (xs @ ys) ! j = (if ?old ! b = Some (fst m) \<and> b < c then ?old[b := ?v] else ?old) ! j"
    proof (cases "j = b")
      case False
      then show ?thesis using j other[OF False] by (simp add: heads_nth)
    next
      case True
      show ?thesis
      proof (cases "filter (\<lambda>n. ?f n = b) xs = []")
        case e: True
        then show ?thesis using True j old_b v by (simp add: heads_nth)
      next
        case ne: False
        then show ?thesis using True j old_b hd_ne[OF ne] by (simp add: heads_nth it_of_append)
      qed
    qed
  qed
qed

lemma erase_absent:
  assumes ch: "chained s" and c: "0 < length (buckets s)" "length (buckets s) \<le> 2 ^ 31"
    and "k \<notin> set (iteration s)"
  shows "erase s k = Some s"
proof -
  have "filter (\<lambda>n. snd n = k) (allKeys s) = []"
    using assms(4) by (auto simp: iteration_def filter_empty_conv)
  then show ?thesis
    unfolding erase_def using find_key_correct[OF ch c, of k] by simp
qed

lemma erase_it_correct:
  assumes ch: "chained s" and c: "0 < length (buckets s)" "length (buckets s) \<le> 2 ^ 31"
    and dec: "allKeys s = xs @ (a, k) # ys"
  shows "erase_it s (Some a) =
           Some (s\<lparr>allKeys := xs @ ys, buckets := heads (length (buckets s)) (xs @ ys),
                   countElements := length (xs @ ys)\<rparr>, it_of ys)"
proof -
  let ?c = "length (buckets s)"
  let ?b = "bidx ?c k"
  let ?v = "case ys of [] \<Rightarrow> None | y # _ \<Rightarrow> if bidx ?c (snd y) = ?b then Some (fst y) else None"
  have dist: "distinct (map fst (xs @ (a, k) # ys))"
    and srt: "sorted (map (\<lambda>n. bidx ?c (snd n)) (xs @ (a, k) # ys))"
    and hds: "buckets s = heads ?c (xs @ (a, k) # ys)"
    and cnt: "countElements s = length (xs @ (a, k) # ys)"
    using ch dec unfolding chained_def by simp_all
  have b: "?b < ?c" by (rule bidx_less[OF c(1)])
  have bk: "\<And>k'. bucket s k' = Some (bidx ?c k')" unfolding bucket_def by (rule bucket_index_ok[OF c])
  have sfx: "from_it (allKeys s) (Some a) = Some ((a, k) # ys)"
    using from_it_it_of[of xs "(a, k) # ys"] dist dec by simp
  have cur: "at_index (buckets s) ?b = Some (buckets s ! ?b)" using b by (simp add: at_index_def)
  have bs: "(if buckets s ! ?b = Some a
             then (case ys of [] \<Rightarrow> Some ((buckets s)[?b := None])
                   | m # _ \<Rightarrow> do { b' \<leftarrow> bucket s (snd m);
                                   Some ((buckets s)[?b := (if b' = ?b then Some (fst m) else None)]) })
             else Some (buckets s))
            = Some (heads ?c (xs @ ys))"
  proof -
    have "(if buckets s ! ?b = Some a
             then (case ys of [] \<Rightarrow> Some ((buckets s)[?b := None])
                   | m # _ \<Rightarrow> do { b' \<leftarrow> bucket s (snd m);
                                   Some ((buckets s)[?b := (if b' = ?b then Some (fst m) else None)]) })
             else Some (buckets s))
          = Some (if buckets s ! ?b = Some a then (buckets s)[?b := ?v] else buckets s)"
      by (cases ys) (simp_all add: bk)
    also have "(if buckets s ! ?b = Some a then (buckets s)[?b := ?v] else buckets s)
                 = heads ?c (xs @ ys)"
      using heads_erase[OF srt dist, of ?b] b hds by simp
    finally show ?thesis .
  qed
  have flt: "filter (\<lambda>n. fst n \<noteq> a) (allKeys s) = xs @ ys"
    using filter_addr[of xs "(a, k)" ys] dist dec by simp
  have cnt': "(if countElements s = 0 then 2 ^ 64 - 1 else countElements s - 1) = length (xs @ ys)"
    using cnt by simp
  show ?thesis
    unfolding erase_it_def
    by (simp only: option.case sfx Option.bind.simps list.sel snd_conv bk[of k] cur bs flt cnt')
qed

lemma erase_present:
  assumes ch: "chained s" and c: "0 < length (buckets s)" "length (buckets s) \<le> 2 ^ 31"
    and k: "k \<in> set (iteration s)"
  shows "\<exists>s'. erase s k = Some s' \<and> chained s'
            \<and> length (buckets s') = length (buckets s)
            \<and> set (iteration s') = set (iteration s) - {k}
            \<and> countElements s' + 1 = countElements s
            \<and> maxLFactor s' = maxLFactor s
            \<and> currentPrimeIndex s' = currentPrimeIndex s"
proof -
  let ?c = "length (buckets s)"
  from k have "k \<in> snd ` set (allKeys s)" by (simp add: iteration_def)
  then obtain a where "(a, k) \<in> set (allKeys s)" by force
  then obtain xs ys where dec: "allKeys s = xs @ (a, k) # ys" by (meson split_list)
  have dist: "distinct (map fst (xs @ (a, k) # ys))"
    and distk: "distinct (map snd (xs @ (a, k) # ys))"
    and srt: "sorted (map (\<lambda>n. bidx ?c (snd n)) (xs @ (a, k) # ys))"
    and cnt: "countElements s = length (xs @ (a, k) # ys)"
    using ch dec unfolding chained_def by simp_all
  have kx: "k \<notin> snd ` set xs" and ky: "k \<notin> snd ` set ys" using distk by auto
  then have "\<And>x. x \<in> set xs \<Longrightarrow> snd x \<noteq> k" "\<And>x. x \<in> set ys \<Longrightarrow> snd x \<noteq> k"
    by (metis imageI)+
  then have "filter (\<lambda>n. snd n = k) (xs @ (a, k) # ys) = [(a, k)]"
    by (simp add: filter_empty_conv)
  then have fk: "find_key s k = Some (Some a)"
    using find_key_correct[OF ch c, of k] dec by simp
  let ?s' = "s\<lparr>allKeys := xs @ ys, buckets := heads ?c (xs @ ys), countElements := length (xs @ ys)\<rparr>"
  have er: "erase s k = Some ?s'"
    unfolding erase_def using fk erase_it_correct[OF ch c dec] by simp
  have "chained ?s'"
    unfolding chained_def using dist distk srt by (auto simp: sorted_append)
  moreover have "set (iteration ?s') = set (iteration s) - {k}"
    using dec kx ky by (auto simp: iteration_def)
  ultimately show ?thesis using er cnt by simp
qed

section \<open>Rehashing\<close>

lemma renum_keys [simp]: "map snd (renum a ns) = map snd ns"
  by (induction ns arbitrary: a) auto

lemma renum_addr_ge: "n \<in> set (renum a ns) \<Longrightarrow> a \<le> fst n"
  by (induction ns arbitrary: a) fastforce+

lemma renum_distinct: "distinct (map fst (renum a ns))"
proof (induction ns arbitrary: a)
  case Nil
  then show ?case by simp
next
  case (Cons n ns)
  have "a \<notin> fst ` set (renum (Suc a) ns)" using renum_addr_ge[of _ "Suc a" ns] by fastforce
  then show ?case using Cons by simp
qed

lemma fill_temp_correct:
  assumes c: "0 < c" "c \<le> 2 ^ 31"
  shows "length temp = c \<Longrightarrow>
         fill_temp c ns temp a =
           Some (map (\<lambda>b. temp ! b @ filter (\<lambda>n. bidx c (snd n) = b) (renum a ns)) [0..<c])"
proof (induction ns arbitrary: temp a)
  case Nil
  have "map ((!) temp) [0..<length temp] = temp" by (rule map_nth)
  then show ?case using Nil by simp
next
  case (Cons n ns)
  let ?b = "bidx c (snd n)"
  let ?t = "temp[?b := temp ! ?b @ [(a, snd n)]]"
  have b: "?b < length temp" using Cons.prems bidx_less[OF c(1)] by simp
  have len: "length ?t = c" using Cons.prems by simp
  have "map (\<lambda>b. ?t ! b @ filter (\<lambda>n. bidx c (snd n) = b) (renum (Suc a) ns)) [0..<c]
      = map (\<lambda>b. temp ! b @ filter (\<lambda>n. bidx c (snd n) = b) (renum a (n # ns))) [0..<c]"
  proof (rule map_cong[OF refl])
    fix j assume "j \<in> set [0..<c]"
    then have "j < length temp" using Cons.prems by simp
    then show "?t ! j @ filter (\<lambda>n. bidx c (snd n) = j) (renum (Suc a) ns)
             = temp ! j @ filter (\<lambda>n. bidx c (snd n) = j) (renum a (n # ns))"
      by (cases "j = ?b") (simp_all add: nth_list_update)
  qed
  then show ?case using Cons.IH[OF len, of "Suc a"] b
    by (simp add: bucket_index_ok[OF c])
qed

lemma fill_temp_parts:
  assumes c: "0 < c" "c \<le> 2 ^ 31"
  shows "fill_temp c ns (replicate c []) a = Some (parts c (renum a ns))"
proof -
  have "map (\<lambda>b. replicate c [] ! b @ filter (\<lambda>n. bidx c (snd n) = b) (renum a ns)) [0..<c]
          = parts c (renum a ns)"
    unfolding parts_def by (rule map_cong[OF refl]) simp
  then show ?thesis using fill_temp_correct[OF c, of "replicate c []" ns a] by simp
qed

lemma length_concat_take: "length (concat (take j xs)) \<le> length (concat xs)"
proof -
  have "concat xs = concat (take j xs) @ concat (drop j xs)"
    by (metis append_take_drop_id concat_append)
  then show ?thesis by simp
qed

lemma splice_bucket_eq:
  assumes "bs ! j = None" and "cnt + length (temp ! j) \<le> 2 ^ 33"
  shows "splice_bucket temp j (ks, bs, cnt) =
           (ks @ temp ! j, bs[j := it_of (temp ! j)], cnt + length (temp ! j))"
proof (cases "temp ! j = []")
  case True
  have "bs[j := None] = bs" using assms(1) by (metis list_update_id)
  then show ?thesis using True by (simp add: splice_bucket_def)
next
  case False
  then show ?thesis using size_t_no_wrap[OF assms(2)] by (simp add: splice_bucket_def)
qed

lemma fold_splice:
  assumes len: "length temp = c" and small: "length (concat temp) \<le> 2 ^ 33"
  shows "j \<le> c \<Longrightarrow>
         fold (splice_bucket temp) [0..<j] ([], replicate c None, 0) =
           (concat (take j temp),
            map (\<lambda>b. if b < j then it_of (temp ! b) else None) [0..<c],
            length (concat (take j temp)))"
proof (induction j)
  case 0
  show ?case by (simp add: map_replicate_const)
next
  case (Suc j)
  then have j: "j < c" by simp
  let ?bs = "map (\<lambda>b. if b < j then it_of (temp ! b) else None) [0..<c]"
  have IH: "fold (splice_bucket temp) [0..<j] ([], replicate c None, 0) =
              (concat (take j temp), ?bs, length (concat (take j temp)))"
    using Suc by simp
  have tk: "take (Suc j) temp = take j temp @ [temp ! j]"
    using j len by (simp add: take_Suc_conv_app_nth)
  have "length (concat (take (Suc j) temp)) \<le> 2 ^ 33"
    using length_concat_take[of "Suc j" temp] small by linarith
  then have bound: "length (concat (take j temp)) + length (temp ! j) \<le> 2 ^ 33"
    using tk by simp
  have none: "?bs ! j = None" using j by simp
  have upd: "?bs[j := it_of (temp ! j)] =
             map (\<lambda>b. if b < Suc j then it_of (temp ! b) else None) [0..<c]"
    by (rule nth_equalityI) (auto simp: nth_list_update less_Suc_eq)
  have "fold (splice_bucket temp) [0..<Suc j] ([], replicate c None, 0)
          = splice_bucket temp j (concat (take j temp), ?bs, length (concat (take j temp)))"
    using IH by simp
  also have "\<dots> = (concat (take j temp) @ temp ! j, ?bs[j := it_of (temp ! j)],
                    length (concat (take j temp)) + length (temp ! j))"
    by (rule splice_bucket_eq[OF none bound])
  finally show ?case using tk upd by simp
qed

lemma fold_splice_all:
  assumes len: "length temp = c" and small: "length (concat temp) \<le> 2 ^ 33"
  shows "fold (splice_bucket temp) [0..<c] ([], replicate c None, 0) =
           (concat temp, map (\<lambda>b. it_of (temp ! b)) [0..<c], length (concat temp))"
proof -
  have "map (\<lambda>b. if b < c then it_of (temp ! b) else None) [0..<c]
          = map (\<lambda>b. it_of (temp ! b)) [0..<c]"
    by (rule map_cong[OF refl]) simp
  then show ?thesis using fold_splice[OF len small, of c] len by simp
qed

lemma parts_length [simp]: "length (parts c ns) = c"
  by (simp add: parts_def)

lemma parts_nth: "b < c \<Longrightarrow> parts c ns ! b = filter (\<lambda>n. bidx c (snd n) = b) ns"
  by (simp add: parts_def)

lemma concat_parts_upto:
  "mset (concat (map (\<lambda>b. filter (\<lambda>n. f n = b) ns) [0..<j])) = mset (filter (\<lambda>n. f n < j) ns)"
proof (induction j)
  case 0
  then show ?case by simp
next
  case (Suc j)
  have "mset (filter (\<lambda>n. f n < j) ns) + mset (filter (\<lambda>n. f n = j) ns)
          = mset (filter (\<lambda>n. f n < Suc j) ns)"
    by (induction ns) (auto simp: less_Suc_eq)
  then show ?case using Suc by simp
qed

lemma mset_concat_parts:
  assumes "0 < c"
  shows "mset (concat (parts c ns)) = mset ns"
proof -
  have "filter (\<lambda>n. bidx c (snd n) < c) ns = ns"
    using bidx_less[OF assms] by (simp add: filter_id_conv)
  then show ?thesis
    unfolding parts_def using concat_parts_upto[of "\<lambda>n. bidx c (snd n)" ns c] by simp
qed

lemma sorted_concat_upto:
  fixes f :: "'a \<Rightarrow> nat"
  shows "sorted (map f (concat (map (\<lambda>b. filter (\<lambda>n. f n = b) ns) [0..<j])))
       \<and> (\<forall>n\<in>set (concat (map (\<lambda>b. filter (\<lambda>n. f n = b) ns) [0..<j])). f n < j)"
proof (induction j)
  case 0
  then show ?case by simp
next
  case (Suc j)
  have "sorted (map f (filter (\<lambda>n. f n = j) ns))"
    by (induction ns) auto
  then show ?case using Suc by (auto simp: sorted_append less_Suc_eq)
qed

lemma sorted_concat_parts: "sorted (map (\<lambda>n. bidx c (snd n)) (concat (parts c ns)))"
  unfolding parts_def using sorted_concat_upto[of "\<lambda>n. bidx c (snd n)" ns c] by simp

lemma filter_concat_upto:
  "filter (\<lambda>n. f n = b) (concat (map (\<lambda>b. filter (\<lambda>n. f n = b) ns) [0..<j]))
     = (if b < j then filter (\<lambda>n. f n = b) ns else [])"
proof (induction j)
  case 0
  then show ?case by simp
next
  case (Suc j)
  have "filter (\<lambda>n. f n = b) (filter (\<lambda>n. f n = j) ns)
          = (if b = j then filter (\<lambda>n. f n = b) ns else [])"
    by (auto simp: filter_empty_conv)
  then show ?case using Suc by (auto simp: less_Suc_eq)
qed

lemma heads_concat_parts: "heads c (concat (parts c ns)) = map (\<lambda>b. it_of (parts c ns ! b)) [0..<c]"
  unfolding heads_def
proof (rule map_cong[OF refl])
  fix b assume "b \<in> set [0..<c]"
  then have b: "b < c" by simp
  have "filter (\<lambda>n. bidx c (snd n) = b) (concat (parts c ns)) = parts c ns ! b"
    unfolding parts_def using filter_concat_upto[of "\<lambda>n. bidx c (snd n)" b ns c] b by simp
  then show "it_of (filter (\<lambda>n. bidx c (snd n) = b) (concat (parts c ns))) = it_of (parts c ns ! b)"
    by simp
qed

text \<open>The choice of the bucket count.\<close>

lemma wf_sizes_nth: "wf_sizes sizes \<Longrightarrow> i < length sizes \<Longrightarrow> 0 < sizes ! i \<and> sizes ! i \<le> 2 ^ 31"
  by (simp add: wf_sizes_def list_all_length)

lemma wf_sizes_mem: "wf_sizes sizes \<Longrightarrow> c \<in> set sizes \<Longrightarrow> 0 < c \<and> c \<le> 2 ^ 31"
  by (simp add: wf_sizes_def list_all_iff)

lemma wf_sizes_last: "wf_sizes sizes \<Longrightarrow> last sizes \<in> set sizes"
  by (simp add: wf_sizes_def)

lemma select_size_cases:
  assumes "sizes \<noteq> []"
  shows "(\<exists>i. select_size sizes cur n = Some (sizes ! i, i) \<and> i < length sizes
              \<and> n \<le> sizes ! i \<and> (\<forall>j<i. sizes ! j < n))
       \<or> (select_size sizes cur n = Some (last sizes, cur) \<and> (\<forall>x\<in>set sizes. x < n))"
proof (cases "List.find (\<lambda>i. sizes ! i \<ge> n) [0..<length sizes]")
  case None
  then have "\<forall>i<length sizes. sizes ! i < n" by (auto simp: find_None_iff not_le)
  then have "\<forall>x\<in>set sizes. x < n" by (auto simp: in_set_conv_nth)
  then show ?thesis using None assms by (simp add: select_size_def)
next
  case (Some i)
  then have "i < length sizes \<and> n \<le> sizes ! i \<and> (\<forall>j<i. sizes ! j < n)"
    by (auto simp: find_Some_iff not_le)
  then show ?thesis using Some assms by (auto simp: select_size_def)
qed

lemma select_size_exact:
  assumes wf: "wf_sizes sizes" and i: "i < length sizes"
  shows "select_size sizes cur (sizes ! i) = Some (sizes ! i, i)"
proof -
  have ne: "sizes \<noteq> []" and srt: "sorted_wrt (<) sizes" using wf by (simp_all add: wf_sizes_def)
  have less: "\<And>j. j < i \<Longrightarrow> sizes ! j < sizes ! i"
    using srt i by (simp add: sorted_wrt_nth_less)
  from select_size_cases[OF ne, of cur "sizes ! i"]
  show ?thesis
  proof
    assume "\<exists>i'. select_size sizes cur (sizes ! i) = Some (sizes ! i', i') \<and> i' < length sizes
              \<and> sizes ! i \<le> sizes ! i' \<and> (\<forall>j<i'. sizes ! j < sizes ! i)"
    then obtain i' where sel: "select_size sizes cur (sizes ! i) = Some (sizes ! i', i')"
      and i': "i' < length sizes" and le: "sizes ! i \<le> sizes ! i'"
      and min: "\<forall>j<i'. sizes ! j < sizes ! i" by blast
    have "\<not> i < i'" using min by auto
    moreover have "\<not> i' < i"
    proof
      assume "i' < i"
      then have "sizes ! i' < sizes ! i" using srt i by (simp add: sorted_wrt_nth_less)
      then show False using le by simp
    qed
    ultimately have "i' = i" by simp
    then show ?thesis using sel by simp
  next
    assume "select_size sizes cur (sizes ! i) = Some (last sizes, cur) \<and> (\<forall>x\<in>set sizes. x < sizes ! i)"
    then have "sizes ! i < sizes ! i" using i by (metis nth_mem)
    then show ?thesis by simp
  qed
qed

lemma rehash_correct:
  assumes sel: "select_size sizes (currentPrimeIndex s) n = Some (c, i)"
    and c: "0 < c" "c \<le> 2 ^ 31"
    and distk: "distinct (map snd (allKeys s))"
  defines "ks \<equiv> concat (parts c (renum (fresh_addr (allKeys s)) (allKeys s)))"
  shows "rehash sizes s n =
           Some (s\<lparr>allKeys := ks, buckets := heads c ks, countElements := length (allKeys s),
                   currentPrimeIndex := i\<rparr>)"
    and "mset (map snd ks) = mset (map snd (allKeys s))"
    and "distinct (map fst ks)"
    and "sorted (map (\<lambda>n. bidx c (snd n)) ks)"
proof -
  let ?ns' = "renum (fresh_addr (allKeys s)) (allKeys s)"
  let ?temp = "parts c ?ns'"
  have fill: "fill_temp c (allKeys s) (replicate c []) (fresh_addr (allKeys s)) = Some ?temp"
    by (rule fill_temp_parts[OF c])
  have ms: "mset ks = mset ?ns'" unfolding ks_def by (rule mset_concat_parts[OF c(1)])
  have "mset (map snd ks) = mset (map snd ?ns')"
    using ms by (metis mset_map)
  then show mk: "mset (map snd ks) = mset (map snd (allKeys s))" by simp
  have "mset (map fst ks) = mset (map fst ?ns')" using ms by (metis mset_map)
  then show "distinct (map fst ks)"
    using renum_distinct[of "fresh_addr (allKeys s)" "allKeys s"] by (metis mset_eq_imp_distinct_iff)
  show "sorted (map (\<lambda>n. bidx c (snd n)) ks)" unfolding ks_def by (rule sorted_concat_parts)
  have len: "length ks = length (allKeys s)"
    using mk by (metis length_map size_mset)
  have "length (map snd (allKeys s)) \<le> 2 ^ 32" using distk by (rule key_count_bound)
  moreover have "(2::nat) ^ 32 \<le> 2 ^ 33" by simp
  ultimately have small: "length (concat ?temp) \<le> 2 ^ 33" using len unfolding ks_def by simp
  have fold: "fold (splice_bucket ?temp) [0..<c] ([], replicate c None, 0) =
                (ks, heads c ks, length (allKeys s))"
    using fold_splice_all[OF parts_length small] heads_concat_parts[of c ?ns'] len
    unfolding ks_def by simp
  show "rehash sizes s n =
           Some (s\<lparr>allKeys := ks, buckets := heads c ks, countElements := length (allKeys s),
                   currentPrimeIndex := i\<rparr>)"
    unfolding rehash_def using sel fill fold by simp
qed

lemma rehash_chained:
  assumes sel: "select_size sizes (currentPrimeIndex s) n = Some (c, i)"
    and c: "0 < c" "c \<le> 2 ^ 31"
    and ch: "chained s"
  shows "\<exists>s'. rehash sizes s n = Some s' \<and> chained s'
            \<and> length (buckets s') = c \<and> currentPrimeIndex s' = i
            \<and> mset (iteration s') = mset (iteration s)
            \<and> countElements s' = countElements s
            \<and> maxLFactor s' = maxLFactor s"
proof -
  have distk: "distinct (map snd (allKeys s))" and cnt: "countElements s = length (allKeys s)"
    using ch by (simp_all add: chained_def)
  define ks where "ks = concat (parts c (renum (fresh_addr (allKeys s)) (allKeys s)))"
  note r = rehash_correct[OF sel c distk, folded ks_def]
  have len: "length ks = length (allKeys s)"
    using r(2) by (metis length_map size_mset)
  have dk: "distinct (map snd ks)" using r(2) distk by (metis mset_eq_imp_distinct_iff)
  have "chained (s\<lparr>allKeys := ks, buckets := heads c ks, countElements := length (allKeys s),
                   currentPrimeIndex := i\<rparr>)"
    unfolding chained_def using r(3,4) dk len by simp
  then show ?thesis using r(1,2) cnt by (simp add: iteration_def)
qed

section \<open>The operations preserve the invariant\<close>

lemma invar_bounds:
  assumes "wf_sizes sizes" and "invar sizes s"
  shows "0 < length (buckets s)" and "length (buckets s) \<le> 2 ^ 31"
proof -
  have "length (buckets s) \<in> set sizes"
    using assms wf_sizes_last[OF assms(1)] by (auto simp: invar_def)
  then show "0 < length (buckets s)" and "length (buckets s) \<le> 2 ^ 31"
    using wf_sizes_mem[OF assms(1), of "length (buckets s)"] by blast+
qed

lemma invar_chained: "invar sizes s \<Longrightarrow> chained s"
  by (simp add: invar_def)

lemma heads_Nil: "heads c [] = replicate c None"
  by (simp add: heads_def map_replicate_const)

lemma HashSet_invar:
  assumes "wf_sizes sizes"
  shows "\<exists>s. HashSet sizes = Some s \<and> invar sizes s \<and> allKeys s = [] \<and> countElements s = 0
           \<and> length (buckets s) = sizes ! 0 \<and> maxLFactor s = Finite 1 \<and> currentPrimeIndex s = 0"
  using assms by (simp add: HashSet_def wf_sizes_def invar_def chained_def heads_Nil)

lemma rehash_spec:
  assumes wf: "wf_sizes sizes" and inv: "invar sizes s"
  shows "\<exists>s'. rehash sizes s n = Some s' \<and> invar sizes s'
            \<and> mset (iteration s') = mset (iteration s)
            \<and> countElements s' = countElements s
            \<and> maxLFactor s' = maxLFactor s
            \<and> select_size sizes (currentPrimeIndex s) n
                 = Some (length (buckets s'), currentPrimeIndex s')"
proof -
  have ne: "sizes \<noteq> []" using wf by (simp add: wf_sizes_def)
  have idx: "currentPrimeIndex s < length sizes" using inv by (simp add: invar_def)
  obtain c i where sel: "select_size sizes (currentPrimeIndex s) n = Some (c, i)"
    and ci: "i < length sizes" "c = sizes ! i \<or> c = last sizes"
    using select_size_cases[OF ne, of "currentPrimeIndex s" n] idx by blast
  have "c \<in> set sizes" using ci wf_sizes_last[OF wf] by auto
  then have c: "0 < c" "c \<le> 2 ^ 31" using wf_sizes_mem[OF wf] by simp_all
  from rehash_chained[OF sel c invar_chained[OF inv]]
  obtain s' where "rehash sizes s n = Some s'" "chained s'" "length (buckets s') = c"
    "currentPrimeIndex s' = i" "mset (iteration s') = mset (iteration s)"
    "countElements s' = countElements s" "maxLFactor s' = maxLFactor s" by blast
  then show ?thesis using sel ci by (simp add: invar_def)
qed

lemma rehash_exact:
  assumes wf: "wf_sizes sizes" and inv: "invar sizes s" and i: "i < length sizes"
  shows "\<exists>s'. rehash sizes s (sizes ! i) = Some s' \<and> invar sizes s'
            \<and> length (buckets s') = sizes ! i \<and> currentPrimeIndex s' = i
            \<and> mset (iteration s') = mset (iteration s)
            \<and> countElements s' = countElements s
            \<and> maxLFactor s' = maxLFactor s"
  using rehash_spec[OF wf inv, of "sizes ! i"] select_size_exact[OF wf i, of "currentPrimeIndex s"]
  by auto

lemma insert_key_spec:
  assumes wf: "wf_sizes sizes" and inv: "invar sizes s"
  shows "\<exists>s'. insert_key sizes s k = Some s' \<and> invar sizes s'
            \<and> set (iteration s') = Set.insert k (set (iteration s))
            \<and> maxLFactor s' = maxLFactor s
            \<and> (k \<in> set (iteration s) \<longrightarrow> s' = s)
            \<and> (k \<notin> set (iteration s) \<longrightarrow>
                  countElements s' = countElements s + 1
                  \<and> (if needs_growth sizes s
                     then currentPrimeIndex s' = currentPrimeIndex s + 1
                          \<and> length (buckets s') = sizes ! (currentPrimeIndex s + 1)
                     else currentPrimeIndex s' = currentPrimeIndex s
                          \<and> length (buckets s') = length (buckets s)))"
proof -
  note b = invar_bounds[OF wf inv]
  have con: "contains s k = Some (k \<in> set (iteration s))"
    by (rule contains_correct[OF invar_chained[OF inv] b])
  show ?thesis
  proof (cases "k \<in> set (iteration s)")
    case True
    then show ?thesis using con inv by (auto simp: insert_key_def)
  next
    case False
    let ?g = "if needs_growth sizes s
              then rehash sizes s (sizes ! (currentPrimeIndex s + 1)) else Some s"
    have "\<exists>s1. ?g = Some s1 \<and> invar sizes s1
              \<and> set (iteration s1) = set (iteration s)
              \<and> countElements s1 = countElements s \<and> maxLFactor s1 = maxLFactor s
              \<and> (if needs_growth sizes s
                     then currentPrimeIndex s1 = currentPrimeIndex s + 1
                          \<and> length (buckets s1) = sizes ! (currentPrimeIndex s + 1)
                     else currentPrimeIndex s1 = currentPrimeIndex s
                          \<and> length (buckets s1) = length (buckets s))"
    proof (cases "needs_growth sizes s")
      case g: True
      then have i: "currentPrimeIndex s + 1 < length sizes" by (simp add: needs_growth_def)
      from rehash_exact[OF wf inv i] obtain s1 where
        "rehash sizes s (sizes ! (currentPrimeIndex s + 1)) = Some s1" "invar sizes s1"
        "length (buckets s1) = sizes ! (currentPrimeIndex s + 1)"
        "currentPrimeIndex s1 = currentPrimeIndex s + 1"
        "mset (iteration s1) = mset (iteration s)"
        "countElements s1 = countElements s" "maxLFactor s1 = maxLFactor s" by blast
      then show ?thesis using g by (auto dest: mset_eq_setD)
    next
      case False
      then show ?thesis using inv by simp
    qed
    then obtain s1 where g: "?g = Some s1" and inv1: "invar sizes s1"
      and keys1: "set (iteration s1) = set (iteration s)"
      and cnt1: "countElements s1 = countElements s" and m1: "maxLFactor s1 = maxLFactor s"
      and idx1: "if needs_growth sizes s
                     then currentPrimeIndex s1 = currentPrimeIndex s + 1
                          \<and> length (buckets s1) = sizes ! (currentPrimeIndex s + 1)
                     else currentPrimeIndex s1 = currentPrimeIndex s
                          \<and> length (buckets s1) = length (buckets s)"
      by blast
    note b1 = invar_bounds[OF wf inv1]
    have new1: "k \<notin> set (iteration s1)" using False keys1 by simp
    from insert_node_chained[OF invar_chained[OF inv1] b1 new1]
    obtain s' where ins: "insert_node s1 k = Some s'" and ch': "chained s'"
      and len': "length (buckets s') = length (buckets s1)"
      and keys': "set (iteration s') = Set.insert k (set (iteration s1))"
      and cnt': "countElements s' = countElements s1 + 1"
      and m': "maxLFactor s' = maxLFactor s1"
      and idx': "currentPrimeIndex s' = currentPrimeIndex s1" by blast
    have inv': "invar sizes s'" using inv1 ch' len' idx' by (simp add: invar_def)
    have "insert_key sizes s k = Some s'"
      unfolding insert_key_def using con False g ins by simp
    then show ?thesis
      using inv' keys' keys1 cnt' cnt1 m' m1 idx1 idx' len' False by (simp split: if_splits)
  qed
qed

lemma erase_spec:
  assumes wf: "wf_sizes sizes" and inv: "invar sizes s"
  shows "\<exists>s'. erase s k = Some s' \<and> invar sizes s'
            \<and> set (iteration s') = set (iteration s) - {k}
            \<and> (k \<notin> set (iteration s) \<longrightarrow> s' = s)
            \<and> (k \<in> set (iteration s) \<longrightarrow> countElements s' + 1 = countElements s)
            \<and> length (buckets s') = length (buckets s)
            \<and> currentPrimeIndex s' = currentPrimeIndex s
            \<and> maxLFactor s' = maxLFactor s"
proof (cases "k \<in> set (iteration s)")
  case True
  from erase_present[OF invar_chained[OF inv] invar_bounds[OF wf inv] True]
  obtain s' where "erase s k = Some s'" "chained s'" "length (buckets s') = length (buckets s)"
    "set (iteration s') = set (iteration s) - {k}" "countElements s' + 1 = countElements s"
    "maxLFactor s' = maxLFactor s" "currentPrimeIndex s' = currentPrimeIndex s" by blast
  then show ?thesis using inv True by (simp add: invar_def)
next
  case False
  then show ?thesis
    using erase_absent[OF invar_chained[OF inv] invar_bounds[OF wf inv] False] inv by simp
qed

section \<open>Rounding to single precision\<close>

lemma rne_lower: "\<lfloor>y\<rfloor> \<le> rne y"
  by (simp add: rne_def Let_def)

lemma rne_upper: "rne y \<le> \<lfloor>y\<rfloor> + 1"
  by (simp add: rne_def Let_def)

lemma rne_of_int: "rne (of_int k) = k"
  by (simp add: rne_def Let_def)

lemma rne_mono:
  assumes "y \<le> z"
  shows "rne y \<le> rne z"
proof (cases "\<lfloor>y\<rfloor> = \<lfloor>z\<rfloor>")
  case True
  then show ?thesis using assms by (auto simp add: rne_def Let_def)
next
  case False
  moreover have "\<lfloor>y\<rfloor> \<le> \<lfloor>z\<rfloor>" using assms by (rule floor_mono)
  ultimately have "\<lfloor>y\<rfloor> + 1 \<le> \<lfloor>z\<rfloor>" by simp
  then show ?thesis using rne_upper[of y] rne_lower[of z] by linarith
qed

lemma rne_between:
  assumes "of_int a \<le> y" "y \<le> of_int b"
  shows "a \<le> rne y" "rne y \<le> b"
  using rne_mono[OF assms(1)] rne_mono[OF assms(2)] by (simp_all add: rne_of_int)

lemma pow2_step: "(2::real) powi (e + 1) = 2 * 2 powi e"
  by (simp add: power_int_add)

lemma pow2_pred: "(2::real) powi (e - 1) = 2 powi e / 2"
  by (simp add: power_int_diff)

lemma pow2_less_imp: "(2::real) powi a < 2 powi b \<Longrightarrow> a < b"
proof (rule ccontr)
  assume lt: "(2::real) powi a < 2 powi b" and "\<not> a < b"
  then have "b \<le> a" by simp
  then have "(2::real) powi b \<le> 2 powi a" by (rule power_int_increasing) simp
  then show False using lt by simp
qed

text \<open>The exponent brackets its argument between two powers of two.\<close>

lemma expo_bounds: "0 < x \<Longrightarrow> 2 powi (expo x) \<le> x \<and> x < 2 powi (expo x + 1)"
proof (induction x rule: expo.induct)
  case (1 x)
  show ?case
  proof (cases "2 \<le> x")
    case True
    then have e: "expo x = expo (x / 2) + 1" using 1(3) by (simp add: expo.simps[of x])
    have "2 powi (expo (x / 2)) \<le> x / 2 \<and> x / 2 < 2 powi (expo (x / 2) + 1)"
      using 1(1) True 1(3) by simp
    then have "2 * 2 powi (expo (x / 2)) \<le> x \<and> x < 2 * (2 * 2 powi (expo (x / 2)))"
      unfolding pow2_step by simp
    then show ?thesis unfolding e pow2_step .
  next
    case False
    show ?thesis
    proof (cases "x < 1")
      case True
      then have e: "expo x = expo (2 * x) - 1" using 1(3) False by (simp add: expo.simps[of x])
      have "2 powi (expo (2 * x)) \<le> 2 * x \<and> 2 * x < 2 powi (expo (2 * x) + 1)"
        using 1(2) True False 1(3) by simp
      then have "2 powi (expo (2 * x)) / 2 \<le> x \<and> x < 2 powi (expo (2 * x))"
        unfolding pow2_step by simp
      moreover have "expo (2 * x) - 1 + 1 = expo (2 * x)" by simp
      ultimately show ?thesis unfolding e pow2_pred by (simp only:)
    next
      case ge: False
      then have e: "expo x = 0" using 1(3) False by (simp add: expo.simps[of x])
      show ?thesis unfolding e using ge False by simp
    qed
  qed
qed

lemma expo_mono:
  assumes "0 < x" "x \<le> y"
  shows "expo x \<le> expo y"
proof -
  have "0 < y" using assms by simp
  then have "(2::real) powi (expo x) < 2 powi (expo y + 1)"
    using expo_bounds[OF assms(1)] expo_bounds[of y] assms(2) by linarith
  then have "expo x < expo y + 1" by (rule pow2_less_imp)
  then show ?thesis by simp
qed

text \<open>A rounded value stays between the powers of two that bracket the argument.\<close>

lemma f32_round_bounds:
  assumes "0 < x"
  shows "2 powi (expo x) \<le> f32_round x" "f32_round x \<le> 2 powi (expo x + 1)"
proof -
  define u :: real where "u = 2 powi (expo x - 23)"
  have u: "0 < u" by (simp add: u_def)
  have lo: "2 powi (expo x) = 2 ^ 23 * u" and hi: "2 powi (expo x + 1) = 2 ^ 24 * u"
    by (simp_all add: u_def power_int_diff power_int_add)
  have "2 ^ 23 * u \<le> x" "x < 2 ^ 24 * u" using expo_bounds[OF assms] lo hi by simp_all
  then have "of_int (2 ^ 23) \<le> x / u" "x / u \<le> of_int (2 ^ 24)"
    using u by (simp_all add: field_simps)
  then have "2 ^ 23 \<le> rne (x / u)" "rne (x / u) \<le> 2 ^ 24" by (rule rne_between)+
  then have "real_of_int (2 ^ 23) \<le> real_of_int (rne (x / u))"
    "real_of_int (rne (x / u)) \<le> real_of_int (2 ^ 24)"
    by (simp_all only: of_int_le_iff)
  then have "2 ^ 23 \<le> real_of_int (rne (x / u))" "real_of_int (rne (x / u)) \<le> 2 ^ 24"
    by simp_all
  then have "2 ^ 23 * u \<le> real_of_int (rne (x / u)) * u" "real_of_int (rne (x / u)) * u \<le> 2 ^ 24 * u"
    using u by simp_all
  moreover have "f32_round x = real_of_int (rne (x / u)) * u"
    using assms by (simp add: f32_round_def u_def Let_def)
  ultimately show "2 powi (expo x) \<le> f32_round x" "f32_round x \<le> 2 powi (expo x + 1)"
    using lo hi by simp_all
qed

lemma f32_round_nonneg: "0 \<le> f32_round x"
proof (cases "0 < x")
  case True
  have "(0::real) \<le> 2 powi (expo x)" by simp
  then show ?thesis using f32_round_bounds(1)[OF True] by linarith
next
  case False
  then show ?thesis by (simp add: f32_round_def)
qed

lemma f32_round_pos:
  assumes x: "0 < x"
  shows "0 < f32_round x"
proof -
  have "(0::real) < 2 powi (expo x)" by simp
  then show ?thesis using f32_round_bounds(1)[OF x] by linarith
qed

text \<open>Rounding is monotone.\<close>

lemma f32_round_mono:
  assumes "x \<le> y"
  shows "f32_round x \<le> f32_round y"
proof (cases "0 < x")
  case False
  then have "f32_round x = 0" by (simp add: f32_round_def)
  then show ?thesis using f32_round_nonneg[of y] by simp
next
  case x: True
  then have y: "0 < y" using assms by simp
  show ?thesis
  proof (cases "expo x = expo y")
    case True
    define u :: real where "u = 2 powi (expo y - 23)"
    have u: "0 < u" by (simp add: u_def)
    have "x / u \<le> y / u" using assms u by (simp add: divide_right_mono)
    then have "rne (x / u) \<le> rne (y / u)" by (rule rne_mono)
    then have "real_of_int (rne (x / u)) * u \<le> real_of_int (rne (y / u)) * u"
      using u by simp
    moreover have "f32_round x = real_of_int (rne (x / u)) * u"
      using x True by (simp add: f32_round_def u_def Let_def)
    moreover have "f32_round y = real_of_int (rne (y / u)) * u"
      using y by (simp add: f32_round_def u_def Let_def)
    ultimately show ?thesis by simp
  next
    case False
    then have "expo x + 1 \<le> expo y" using expo_mono[OF x assms] by simp
    then have "(2::real) powi (expo x + 1) \<le> 2 powi (expo y)"
      by (rule power_int_increasing) simp
    then show ?thesis using f32_round_bounds(2)[OF x] f32_round_bounds(1)[OF y] by linarith
  qed
qed

lemma f32_round_one: "f32_round 1 = 1"
  by (simp add: f32_round_def expo.simps rne_def Let_def)

lemma f32_of_nat_mono: "n \<le> m \<Longrightarrow> f32_of_nat n \<le> f32_of_nat m"
  unfolding f32_of_nat_def by (rule f32_round_mono) simp

lemma f32_of_nat_pos: "0 < n \<Longrightarrow> 0 < f32_of_nat n"
  unfolding f32_of_nat_def by (rule f32_round_pos) simp

lemma f32_of_nat_nonneg: "0 \<le> f32_of_nat n"
  unfolding f32_of_nat_def by (rule f32_round_nonneg)

lemma f32_div_pos: "0 < c \<Longrightarrow> f32_div n c = Finite (f32_ratio n c)"
  by (simp add: f32_div_def)

text \<open>A count that does not exceed the bucket count gives a ratio of at most 1.\<close>

lemma f32_ratio_le_one:
  assumes "n \<le> c" "0 < c"
  shows "f32_ratio n c \<le> 1"
proof -
  have "f32_of_nat n / f32_of_nat c \<le> 1"
    using f32_of_nat_mono[OF assms(1)] f32_of_nat_pos[OF assms(2)] by simp
  then have "f32_ratio n c \<le> f32_round 1" unfolding f32_ratio_def by (rule f32_round_mono)
  then show ?thesis by (simp add: f32_round_one)
qed

text \<open>More buckets never give a larger ratio.\<close>

lemma f32_ratio_antimono:
  assumes "0 < c" "c \<le> c'"
  shows "f32_ratio n c' \<le> f32_ratio n c"
proof -
  have "f32_of_nat n / f32_of_nat c' \<le> f32_of_nat n / f32_of_nat c"
    using f32_of_nat_mono[OF assms(2)] f32_of_nat_pos[OF assms(1)] f32_of_nat_nonneg[of n]
    by (simp add: frac_le)
  then show ?thesis unfolding f32_ratio_def by (rule f32_round_mono)
qed

lemma f32_le_less:
  "f32_le (Finite a) m \<Longrightarrow> f32_less m (Finite b) \<Longrightarrow> a < b"
  by (cases m) simp_all

text \<open>
  Quotients that the scenarios meet. \<open>7 / 10\<close> rounds to the float that the literal
  \<open>0.7f\<close> denotes, \<open>11744051 / 2^24\<close>, which is smaller than \<open>7/10\<close>.
\<close>

lemma ex_f32_div:
  "f32_div 8 7 = Finite (9586981 / 8388608)"
  "f32_div 6 5 = Finite (10066330 / 8388608)"
  "f32_div 7 10 = Finite (11744051 / 16777216)"
  "f32_div 7 17 = Finite (13816531 / 33554432)"
  "f32_div 3 7 = Finite (14380471 / 33554432)"
  "f32_div 3 17 = Finite (11842741 / 67108864)"
  by (simp_all add: f32_div_def f32_ratio_def f32_of_nat_def f32_round_def expo.simps rne_def Let_def)

section \<open>Copy construction and erasure at an iterator\<close>

lemma rebuild_correct:
  assumes c: "0 < c" "c \<le> 2 ^ 31"
  shows "length bs = c \<Longrightarrow>
         rebuild c ns bs =
           Some (map (\<lambda>b. if bs ! b \<noteq> None then bs ! b
                           else it_of (filter (\<lambda>n. bidx c (snd n) = b) ns)) [0..<c])"
proof (induction ns arbitrary: bs)
  case Nil
  have H: "map (\<lambda>b. if bs ! b \<noteq> None then bs ! b
                      else it_of (filter (\<lambda>n. bidx c (snd n) = b) [])) [0..<c] = bs"
    using Nil by (intro nth_equalityI) auto
  show ?case unfolding rebuild.simps H by (rule refl)
next
  case (Cons n ns)
  let ?b = "bidx c (snd n)"
  let ?bs = "if bs ! ?b = None then bs[?b := Some (fst n)] else bs"
  have b: "?b < length bs" using Cons.prems bidx_less[OF c(1)] by simp
  have len: "length ?bs = c" using Cons.prems by simp
  have "map (\<lambda>j. if ?bs ! j \<noteq> None then ?bs ! j
                  else it_of (filter (\<lambda>n. bidx c (snd n) = j) ns)) [0..<c]
      = map (\<lambda>j. if bs ! j \<noteq> None then bs ! j
                  else it_of (filter (\<lambda>n. bidx c (snd n) = j) (n # ns))) [0..<c]"
  proof (rule map_cong[OF refl])
    fix j assume "j \<in> set [0..<c]"
    then have j: "j < length bs" using Cons.prems by simp
    show "(if ?bs ! j \<noteq> None then ?bs ! j else it_of (filter (\<lambda>n. bidx c (snd n) = j) ns))
        = (if bs ! j \<noteq> None then bs ! j else it_of (filter (\<lambda>n. bidx c (snd n) = j) (n # ns)))"
      using j by (cases "j = ?b") (auto simp: nth_list_update)
  qed
  then show ?case using Cons.IH[OF len] b
    by (simp add: bucket_index_ok[OF c] at_index_def)
qed

lemma copy_set_id:
  assumes wf: "wf_sizes sizes" and inv: "invar sizes s"
  shows "copy_set s = Some s"
proof -
  let ?c = "length (buckets s)"
  note c = invar_bounds[OF wf inv]
  have hds: "buckets s = heads ?c (allKeys s)" using inv by (simp add: invar_def chained_def)
  have "map (\<lambda>b. if replicate ?c None ! b \<noteq> None then replicate ?c None ! b
                   else it_of (filter (\<lambda>n. bidx ?c (snd n) = b) (allKeys s))) [0..<?c]
          = heads ?c (allKeys s)"
    unfolding heads_def by (rule map_cong[OF refl]) simp
  then have "rebuild ?c (allKeys s) (replicate ?c None) = Some (buckets s)"
    using rebuild_correct[OF c, of "replicate ?c None" "allKeys s"] hds by simp
  then show ?thesis by (simp add: copy_set_def)
qed

lemma erase_it_invar:
  assumes wf: "wf_sizes sizes" and inv: "invar sizes s" and er: "erase_it s it = Some (s', it')"
  shows "invar sizes s'"
proof (cases it)
  case None
  then show ?thesis using er inv by (simp add: erase_it_def)
next
  case (Some a)
  let ?c = "length (buckets s)"
  have fi: "from_it (allKeys s) (Some a) \<noteq> None"
    using er Some by (auto simp: erase_it_def split: Option.bind_splits)
  have "\<not> (\<forall>x\<in>set (allKeys s). fst x \<noteq> a)"
  proof
    assume "\<forall>x\<in>set (allKeys s). fst x \<noteq> a"
    then have "dropWhile (\<lambda>n. fst n \<noteq> a) (allKeys s) = []" by simp
    then have "from_it (allKeys s) (Some a) = None"
      by (simp only: from_it_def option.case list.case)
    then show False using fi by simp
  qed
  then obtain n where "n \<in> set (allKeys s)" "fst n = a" by blast
  then have "(a, snd n) \<in> set (allKeys s)" by (metis prod.collapse)
  then obtain k where "(a, k) \<in> set (allKeys s)" by blast
  then obtain xs ys where dec: "allKeys s = xs @ (a, k) # ys" by (meson split_list)
  have ch: "chained s" by (rule invar_chained[OF inv])
  have dist: "distinct (map fst (xs @ (a, k) # ys))"
    and distk: "distinct (map snd (xs @ (a, k) # ys))"
    and srt: "sorted (map (\<lambda>n. bidx ?c (snd n)) (xs @ (a, k) # ys))"
    using ch dec unfolding chained_def by simp_all
  have s': "s' = s\<lparr>allKeys := xs @ ys, buckets := heads ?c (xs @ ys), countElements := length (xs @ ys)\<rparr>"
    using erase_it_correct[OF ch invar_bounds[OF wf inv] dec] er Some by simp
  have "chained s'"
    unfolding s' chained_def using dist distk srt by (auto simp: sorted_append)
  then show ?thesis using inv unfolding invar_def s' by simp
qed

section \<open>Stale \<open>end()\<close> entries in the bucket table\<close>

lemma own_end_fields [simp]:
  "allKeys (own_end s) = allKeys s"
  "length (buckets (own_end s)) = length (buckets s)"
  "countElements (own_end s) = countElements s"
  "maxLFactor (own_end s) = maxLFactor s"
  "currentPrimeIndex (own_end s) = currentPrimeIndex s"
  by (simp_all add: own_end_def)

lemma own_end_reads [simp]:
  "iteration (own_end s) = iteration s"
  "bucket (own_end s) k = bucket s k"
  "bucketCount (own_end s) = bucketCount s"
  "size_hs (own_end s) = size_hs s"
  "loadFactor (own_end s) = loadFactor s"
  "needs_growth sizes (own_end s) = needs_growth sizes s"
  "first_candidate sizes (own_end s) m = first_candidate sizes s m"
  by (simp_all add: iteration_def bucket_def bucketCount_def size_hs_def loadFactor_def
        needs_growth_def first_candidate_def)

lemma own_end_maxLFactor: "own_end (s\<lparr>maxLFactor := m\<rparr>) = (own_end s)\<lparr>maxLFactor := m\<rparr>"
  by (simp add: own_end_def)

lemma own_end_idem [simp]: "own_end (own_end s) = own_end s"
  by (simp add: own_end_def comp_def)

lemma fresh_addr_pos: "0 < fresh_addr ns"
  by (induction ns) simp_all

text \<open>The stale \<open>end()\<close> cannot be dereferenced, and nothing can be inserted before it.\<close>

lemma from_it_stale:
  assumes "0 \<notin> fst ` set ns"
  shows "from_it ns stale_end = None"
proof -
  have "\<forall>n\<in>set ns. fst n \<noteq> 0" using assms by force
  then have "dropWhile (\<lambda>n. fst n \<noteq> 0) ns = []" by simp
  then show ?thesis by (simp only: from_it_def stale_end_def option.case list.case)
qed

lemma list_insert_stale:
  assumes "0 \<notin> fst ` set ns"
  shows "list_insert ns stale_end n = None"
  using assms by (simp add: list_insert_def stale_end_def)

lemma at_index_own_end:
  "at_index (buckets (own_end s)) b
     = map_option (\<lambda>it. if it = stale_end then None else it) (at_index (buckets s) b)"
  by (simp add: at_index_def own_end_def)

text \<open>
  A lookup that returns has not read a stale entry, and returns what it returns with the
  set's own \<open>end()\<close> in place of the stale entries.
\<close>

lemma contains_own_end:
  assumes nz: "0 \<notin> fst ` set (allKeys s)" and r: "contains s k = Some r"
  shows "contains (own_end s) k = Some r"
proof -
  from r obtain b it ns where b: "bucket s k = Some b" and it: "at_index (buckets s) b = Some it"
    and ns: "from_it (allKeys s) it = Some ns"
    and l: "contains_loop (length (buckets s)) b k ns = Some r"
    unfolding contains_def by (auto simp: bind_eq_Some_conv)
  have "it \<noteq> stale_end" using ns from_it_stale[OF nz] by auto
  then have "at_index (buckets (own_end s)) b = Some it" using it by (simp add: at_index_own_end)
  then show ?thesis unfolding contains_def using b ns l by simp
qed

lemma find_key_own_end:
  assumes nz: "0 \<notin> fst ` set (allKeys s)" and r: "find_key s k = Some r"
  shows "find_key (own_end s) k = Some r"
proof -
  from r obtain b it ns where b: "bucket s k = Some b" and it: "at_index (buckets s) b = Some it"
    and ns: "from_it (allKeys s) it = Some ns"
    and l: "find_loop (length (buckets s)) b k ns = Some r"
    unfolding find_key_def by (auto simp: bind_eq_Some_conv)
  have "it \<noteq> stale_end" using ns from_it_stale[OF nz] by auto
  then have "at_index (buckets (own_end s)) b = Some it" using it by (simp add: at_index_own_end)
  then show ?thesis unfolding find_key_def using b ns l by simp
qed

lemma next_nonempty_own_end:
  "next_nonempty bs \<noteq> stale_end
   \<Longrightarrow> next_nonempty (map (\<lambda>it. if it = stale_end then None else it) bs) = next_nonempty bs"
proof (induction bs)
  case Nil
  then show ?case by simp
next
  case (Cons x bs)
  then show ?case by (cases x) (auto simp: stale_end_def)
qed

lemma list_insert_set:
  assumes "list_insert ns pos n = Some ks"
  shows "set ks = Set.insert n (set ns)"
proof (cases pos)
  case None
  then show ?thesis using assms by (auto simp: list_insert_def)
next
  case (Some a)
  let ?P = "\<lambda>m. fst m \<noteq> a"
  have "ks = takeWhile ?P ns @ n # dropWhile ?P ns"
    using assms Some by (simp add: list_insert_def split: if_splits)
  moreover have "set (takeWhile ?P ns) \<union> set (dropWhile ?P ns) = set ns"
    by (metis set_append takeWhile_dropWhile_id)
  ultimately show ?thesis by auto
qed

text \<open>
  An insertion that returns has read no stale entry either: neither at the bucket of
  the key nor in the search for the next non-empty bucket.
\<close>

lemma insert_node_own_end:
  assumes nz: "0 \<notin> fst ` set (allKeys s)" and r: "insert_node s k = Some s'"
  shows "insert_node (own_end s) k = Some (own_end s')" and "0 \<notin> fst ` set (allKeys s')"
proof -
  let ?a = "fresh_addr (allKeys s)"
  let ?u = "\<lambda>it. if it = stale_end then None else it"
  from r obtain b cur pos ks upd where b: "bucket s k = Some b"
    and cur: "at_index (buckets s) b = Some cur"
    and pos: "insert_pos s b cur = Some pos"
    and ks: "list_insert (allKeys s) pos (?a, k) = Some ks"
    and upd: "(if cur = None then Some True
               else do { d \<leftarrow> distance ks cur (Some ?a); Some (d < 0) }) = Some upd"
    and s': "s' = s\<lparr>allKeys := ks,
                     buckets := (if upd then (buckets s)[b := Some ?a] else buckets s),
                     countElements := (countElements s + 1) mod 2 ^ 64\<rparr>"
    unfolding insert_node_def by (auto simp: bind_eq_Some_conv Let_def)
  have a0: "?a \<noteq> 0" using fresh_addr_pos[of "allKeys s"] by simp
  have ua: "?u (Some ?a) = Some ?a" using a0 by (simp add: stale_end_def)
  have cur_ok: "cur \<noteq> stale_end"
  proof
    assume "cur = stale_end"
    then have "insert_pos s b cur = None"
      using from_it_stale[OF nz] by (simp add: insert_pos_def stale_end_def)
    then show False using pos by simp
  qed
  have pos_ok: "pos \<noteq> stale_end" using ks list_insert_stale[OF nz] by auto
  have cur': "at_index (buckets (own_end s)) b = Some cur"
    using cur cur_ok by (simp add: at_index_own_end)
  have pos': "insert_pos (own_end s) b cur = Some pos"
  proof (cases cur)
    case None
    then have p: "pos = next_nonempty (drop (b + 1) (buckets s))"
      using pos by (simp add: insert_pos_def)
    have "next_nonempty (drop (b + 1) (map ?u (buckets s))) = pos"
      unfolding drop_map p using pos_ok p by (intro next_nonempty_own_end) simp
    then show ?thesis using None by (simp add: insert_pos_def own_end_def)
  next
    case (Some a)
    then show ?thesis using pos by (simp add: insert_pos_def)
  qed
  have bu: "buckets (own_end s') = (if upd then (buckets (own_end s))[b := Some ?a]
                                     else buckets (own_end s))"
    unfolding s' own_end_def using ua by (simp add: map_update)
  have "insert_node (own_end s) k
          = Some ((own_end s)\<lparr>allKeys := ks,
                     buckets := (if upd then (buckets (own_end s))[b := Some ?a]
                                 else buckets (own_end s)),
                     countElements := (countElements s + 1) mod 2 ^ 64\<rparr>)"
    unfolding insert_node_def using b cur' pos' ks upd by (simp add: Let_def)
  also have "(own_end s)\<lparr>allKeys := ks,
                     buckets := (if upd then (buckets (own_end s))[b := Some ?a]
                                 else buckets (own_end s)),
                     countElements := (countElements s + 1) mod 2 ^ 64\<rparr> = own_end s'"
    unfolding s' own_end_def using ua by (simp add: map_update)
  finally show "insert_node (own_end s) k = Some (own_end s')" .
  have "set ks = Set.insert (?a, k) (set (allKeys s))" using ks by (rule list_insert_set)
  then show "0 \<notin> fst ` set (allKeys s')" using nz a0 unfolding s' by auto
qed

text \<open>\<open>rehash\<close> reads no bucket entry, and leaves none stale.\<close>

lemma rehash_own_end: "rehash sizes (own_end s) n = rehash sizes s n"
  by (simp add: rehash_def own_end_def)

lemma copy_set_own_end: "copy_set (own_end s) = copy_set s"
  by (simp add: copy_set_def)

lemma heads_not_stale:
  assumes nz: "0 \<notin> fst ` set ns" and it: "it \<in> set (heads c ns)"
  shows "it \<noteq> stale_end"
proof
  assume st: "it = stale_end"
  from it obtain b where "it = it_of (filter (\<lambda>n. bidx c (snd n) = b) ns)"
    by (auto simp: heads_def)
  then obtain m ms where f: "filter (\<lambda>n. bidx c (snd n) = b) ns = m # ms" and "fst m = 0"
    using st by (cases "filter (\<lambda>n. bidx c (snd n) = b) ns") (auto simp: stale_end_def)
  moreover have "m \<in> set (filter (\<lambda>n. bidx c (snd n) = b) ns)" using f by simp
  then have "m \<in> set ns" by simp
  ultimately show False using nz by force
qed

lemma own_end_id:
  assumes ch: "chained s" and nz: "0 \<notin> fst ` set (allKeys s)"
  shows "own_end s = s"
proof -
  have "buckets s = heads (length (buckets s)) (allKeys s)" using ch by (simp add: chained_def)
  then have "\<forall>it\<in>set (buckets s). it \<noteq> stale_end"
    using heads_not_stale[OF nz] by metis
  then have "map (\<lambda>it. if it = stale_end then None else it) (buckets s) = buckets s"
    by (simp add: map_idI)
  then show ?thesis by (simp add: own_end_def)
qed

lemma invar_stale_nz: "invar_stale sizes s \<Longrightarrow> 0 \<notin> fst ` set (allKeys s)"
  by (auto simp: invar_stale_def list_all_iff)

lemma invar_stale_own: "invar_stale sizes s \<Longrightarrow> invar sizes (own_end s)"
  by (simp add: invar_stale_def)

lemma invar_staleI:
  assumes "invar sizes (own_end s)" and "0 \<notin> fst ` set (allKeys s)"
  shows "invar_stale sizes s"
  using assms by (force simp: invar_stale_def list_all_iff)

lemma invar_stale_valid:
  assumes "invar sizes s" and "0 \<notin> fst ` set (allKeys s)"
  shows "invar_stale sizes s"
  using assms own_end_id[OF invar_chained[OF assms(1)] assms(2)] by (intro invar_staleI) simp_all

lemma HashSet_invar_stale:
  assumes "wf_sizes sizes"
  shows "\<exists>s. HashSet sizes = Some s \<and> invar_stale sizes s"
proof -
  from HashSet_invar[OF assms] obtain s where "HashSet sizes = Some s" "invar sizes s"
    "allKeys s = []" by blast
  then show ?thesis using invar_stale_valid[of sizes s] by simp
qed

lemma rehash_addresses:
  assumes wf: "wf_sizes sizes" and inv: "invar sizes t" and r: "rehash sizes t n = Some s'"
  shows "0 \<notin> fst ` set (allKeys s')"
proof -
  have ne: "sizes \<noteq> []" using wf by (simp add: wf_sizes_def)
  have idx: "currentPrimeIndex t < length sizes" using inv by (simp add: invar_def)
  obtain c i where sel: "select_size sizes (currentPrimeIndex t) n = Some (c, i)"
    and ci: "i < length sizes" "c = sizes ! i \<or> c = last sizes"
    using select_size_cases[OF ne, of "currentPrimeIndex t" n] idx by blast
  have "c \<in> set sizes" using ci wf_sizes_last[OF wf] by auto
  then have c: "0 < c" "c \<le> 2 ^ 31" using wf_sizes_mem[OF wf] by simp_all
  have distk: "distinct (map snd (allKeys t))" using inv by (simp add: invar_def chained_def)
  define ks where "ks = concat (parts c (renum (fresh_addr (allKeys t)) (allKeys t)))"
  have "allKeys s' = ks" using rehash_correct(1)[OF sel c distk] r by (simp add: ks_def)
  moreover have "mset ks = mset (renum (fresh_addr (allKeys t)) (allKeys t))"
    unfolding ks_def by (rule mset_concat_parts[OF c(1)])
  then have "set ks = set (renum (fresh_addr (allKeys t)) (allKeys t))" by (rule mset_eq_setD)
  ultimately have "\<forall>m\<in>set (allKeys s'). fresh_addr (allKeys t) \<le> fst m"
    using renum_addr_ge by auto
  then show ?thesis using fresh_addr_pos[of "allKeys t"] by fastforce
qed

lemma rehash_stale:
  assumes wf: "wf_sizes sizes" and inv: "invar_stale sizes s"
  shows "\<exists>s'. rehash sizes s n = Some s' \<and> invar sizes s' \<and> invar_stale sizes s'
            \<and> own_end s' = s'
            \<and> mset (iteration s') = mset (iteration s)
            \<and> countElements s' = countElements s
            \<and> maxLFactor s' = maxLFactor s
            \<and> select_size sizes (currentPrimeIndex s) n
                 = Some (length (buckets s'), currentPrimeIndex s')"
proof -
  note own = invar_stale_own[OF inv]
  from rehash_spec[OF wf own, of n] obtain s' where
    r: "rehash sizes (own_end s) n = Some s'" and inv': "invar sizes s'"
    and rest: "mset (iteration s') = mset (iteration s)" "countElements s' = countElements s"
      "maxLFactor s' = maxLFactor s"
      "select_size sizes (currentPrimeIndex s) n = Some (length (buckets s'), currentPrimeIndex s')"
    by auto
  have nz': "0 \<notin> fst ` set (allKeys s')" by (rule rehash_addresses[OF wf own r])
  have "own_end s' = s'" by (rule own_end_id[OF invar_chained[OF inv'] nz'])
  moreover have "invar_stale sizes s'" by (rule invar_stale_valid[OF inv' nz'])
  ultimately show ?thesis using r inv' rest by (simp add: rehash_own_end)
qed

text \<open>
  \<open>insert\<close> on a state with stale entries: when it returns, it has done what it does on
  the state without them, and the stale entries it has not overwritten are still there.
\<close>

lemma insert_key_stale:
  assumes wf: "wf_sizes sizes" and inv: "invar_stale sizes s"
    and r: "insert_key sizes s k = Some s'"
  shows "insert_key sizes (own_end s) k = Some (own_end s')" and "invar_stale sizes s'"
proof -
  note nz = invar_stale_nz[OF inv]
  note own = invar_stale_own[OF inv]
  from r obtain present where p: "contains s k = Some present"
    unfolding insert_key_def by (auto simp: bind_eq_Some_conv)
  have p': "contains (own_end s) k = Some present" by (rule contains_own_end[OF nz p])
  have both: "insert_key sizes (own_end s) k = Some (own_end s') \<and> 0 \<notin> fst ` set (allKeys s')"
  proof (cases present)
    case True
    then have "s' = s" using r p by (simp add: insert_key_def)
    then show ?thesis using True p' nz by (simp add: insert_key_def)
  next
    case False
    let ?x = "sizes ! (currentPrimeIndex s + 1)"
    show ?thesis
    proof (cases "needs_growth sizes s")
      case g: True
      from rehash_stale[OF wf inv, of ?x] obtain s1 where
        r1: "rehash sizes s ?x = Some s1" and o1: "own_end s1 = s1"
        and st1: "invar_stale sizes s1" by blast
      have ins: "insert_node s1 k = Some s'"
        using r p False g r1 by (simp add: insert_key_def)
      note i = insert_node_own_end[OF invar_stale_nz[OF st1] ins]
      have "insert_key sizes (own_end s) k = Some (own_end s')"
        using p' False g r1 i(1) o1 by (simp add: insert_key_def rehash_own_end)
      then show ?thesis using i(2) by simp
    next
      case g: False
      have ins: "insert_node s k = Some s'"
        using r p False g by (simp add: insert_key_def)
      note i = insert_node_own_end[OF nz ins]
      have "insert_key sizes (own_end s) k = Some (own_end s')"
        using p' False g i(1) by (simp add: insert_key_def)
      then show ?thesis using i(2) by simp
    qed
  qed
  then show "insert_key sizes (own_end s) k = Some (own_end s')" by simp
  moreover have "\<exists>t. insert_key sizes (own_end s) k = Some t \<and> invar sizes t"
    using insert_key_spec[OF wf own, of k] by blast
  ultimately have "invar sizes (own_end s')" by auto
  then show "invar_stale sizes s'" using both by (intro invar_staleI) simp_all
qed

lemma from_it_Some_mem:
  assumes "from_it ns (Some a) = Some ms"
  shows "a \<in> fst ` set ns" and "set ms \<subseteq> set ns"
proof -
  let ?P = "\<lambda>n. fst n \<noteq> a"
  obtain m ms' where d: "dropWhile ?P ns = m # ms'"
    using assms by (cases "dropWhile ?P ns") (simp_all add: from_it_def)
  have ms: "ms = dropWhile ?P ns" using assms d by (simp add: from_it_def)
  show "set ms \<subseteq> set ns" unfolding ms by (rule set_dropWhileD[THEN subsetI])
  have "\<not> (\<forall>n\<in>set ns. ?P n)"
  proof
    assume "\<forall>n\<in>set ns. ?P n"
    then have "dropWhile ?P ns = []" by simp
    then show False using d by (simp only: list.distinct)
  qed
  then show "a \<in> fst ` set ns" by force
qed

lemma erase_it_own_end:
  assumes nz: "0 \<notin> fst ` set (allKeys s)" and r: "erase_it s it = Some (s', it')"
  shows "erase_it (own_end s) it = Some (own_end s', it')" and "0 \<notin> fst ` set (allKeys s')"
proof -
  let ?u = "\<lambda>it. if it = stale_end then None else it"
  have "erase_it (own_end s) it = Some (own_end s', it') \<and> 0 \<notin> fst ` set (allKeys s')"
  proof (cases it)
    case None
    then show ?thesis using r nz by (auto simp: erase_it_def)
  next
    case (Some a)
    from r Some obtain ns b cur bs where ns: "from_it (allKeys s) (Some a) = Some ns"
      and b: "bucket s (snd (hd ns)) = Some b"
      and cur: "at_index (buckets s) b = Some cur"
      and bs: "(if cur = Some a
                then (case tl ns of
                        [] \<Rightarrow> Some ((buckets s)[b := None])
                      | m # _ \<Rightarrow>
                          do { b' \<leftarrow> bucket s (snd m);
                               Some ((buckets s)[b := (if b' = b then Some (fst m) else None)]) })
                else Some (buckets s)) = Some bs"
      and s': "s' = s\<lparr>allKeys := filter (\<lambda>n. fst n \<noteq> a) (allKeys s), buckets := bs,
                       countElements := (if countElements s = 0 then 2 ^ 64 - 1
                                         else countElements s - 1)\<rparr>"
      and it': "it' = it_of (tl ns)"
      unfolding erase_it_def by (auto simp: bind_eq_Some_conv)
    note m = from_it_Some_mem[OF ns]
    have a0: "a \<noteq> 0" using m(1) nz by (cases "a = 0") simp_all
    have tl0: "\<forall>n\<in>set (tl ns). fst n \<noteq> 0"
    proof
      fix n assume "n \<in> set (tl ns)"
      then have "n \<in> set ns" by (cases ns) simp_all
      then show "fst n \<noteq> 0" using m(2) nz by force
    qed
    have cur': "at_index (buckets (own_end s)) b = Some (?u cur)"
      using cur by (simp add: at_index_own_end)
    have test: "?u cur = Some a \<longleftrightarrow> cur = Some a" using a0 by (auto simp: stale_end_def)
    have bo: "buckets (own_end s) = map ?u (buckets s)" by (simp add: own_end_def)
    have n0: "None \<noteq> stale_end" by (simp add: stale_end_def)
    have bs': "(if ?u cur = Some a
                then (case tl ns of
                        [] \<Rightarrow> Some ((buckets (own_end s))[b := None])
                      | m # _ \<Rightarrow>
                          do { b' \<leftarrow> bucket (own_end s) (snd m);
                               Some ((buckets (own_end s))[b := (if b' = b then Some (fst m) else None)]) })
                else Some (buckets (own_end s))) = Some (map ?u bs)"
    proof (cases "cur = Some a")
      case False
      then have "bs = buckets s" using bs by simp
      then show ?thesis using False test bo by simp
    next
      case True
      show ?thesis
      proof (cases "tl ns")
        case Nil
        then have "bs = (buckets s)[b := None]" using bs True by simp
        then show ?thesis using True test Nil bo n0 by (simp add: map_update)
      next
        case (Cons m ms)
        then obtain b' where b': "bucket s (snd m) = Some b'"
          and bsv: "bs = (buckets s)[b := (if b' = b then Some (fst m) else None)]"
          using bs True by (auto simp: bind_eq_Some_conv)
        have "fst m \<noteq> 0" using tl0 Cons by simp
        then have m0: "Some (fst m) \<noteq> stale_end" by (simp add: stale_end_def)
        show ?thesis using True test Cons bo n0 m0 b' bsv
          by (cases "b' = b") (simp_all add: map_update)
      qed
    qed
    have "erase_it (own_end s) (Some a)
            = Some ((own_end s)\<lparr>allKeys := filter (\<lambda>n. fst n \<noteq> a) (allKeys s),
                       buckets := map ?u bs,
                       countElements := (if countElements s = 0 then 2 ^ 64 - 1
                                         else countElements s - 1)\<rparr>, it_of (tl ns))"
      unfolding erase_it_def using ns b cur' bs' by simp
    moreover have "(own_end s)\<lparr>allKeys := filter (\<lambda>n. fst n \<noteq> a) (allKeys s),
                       buckets := map ?u bs,
                       countElements := (if countElements s = 0 then 2 ^ 64 - 1
                                         else countElements s - 1)\<rparr> = own_end s'"
      unfolding s' own_end_def by simp
    moreover have "0 \<notin> fst ` set (allKeys s')" using nz unfolding s' by auto
    ultimately show ?thesis using Some it' by simp
  qed
  then show "erase_it (own_end s) it = Some (own_end s', it')" and "0 \<notin> fst ` set (allKeys s')"
    by simp_all
qed

lemma erase_own_end:
  assumes nz: "0 \<notin> fst ` set (allKeys s)" and r: "erase s k = Some s'"
  shows "erase (own_end s) k = Some (own_end s')" and "0 \<notin> fst ` set (allKeys s')"
proof -
  from r obtain it where f: "find_key s k = Some it"
    unfolding erase_def by (auto simp: bind_eq_Some_conv)
  note f' = find_key_own_end[OF nz f]
  have "erase (own_end s) k = Some (own_end s') \<and> 0 \<notin> fst ` set (allKeys s')"
  proof (cases it)
    case None
    then have "s' = s" using r f by (simp add: erase_def)
    then show ?thesis using None f' nz by (simp add: erase_def)
  next
    case (Some a)
    then obtain it' where e: "erase_it s it = Some (s', it')"
      using r f by (auto simp: erase_def)
    note e' = erase_it_own_end[OF nz e]
    show ?thesis using Some f' e' by (simp add: erase_def)
  qed
  then show "erase (own_end s) k = Some (own_end s')" and "0 \<notin> fst ` set (allKeys s')"
    by simp_all
qed

text \<open>The copy constructor rebuilds the table; the assignment makes every empty bucket stale.\<close>

lemma copy_set_stale:
  assumes wf: "wf_sizes sizes" and inv: "invar_stale sizes s"
  shows "copy_set s = Some (own_end s)"
  using copy_set_id[OF wf invar_stale_own[OF inv]] by (simp add: copy_set_own_end)

lemma assign_stale:
  assumes wf: "wf_sizes sizes" and inv: "invar_stale sizes s"
  shows "\<exists>s'. assign s = Some s' \<and> own_end s' = own_end s
            \<and> buckets s' = map (\<lambda>it. if it = None then stale_end else it) (buckets (own_end s))"
proof -
  let ?u = "\<lambda>it. if it = stale_end then None else it"
  let ?v = "\<lambda>it. if it = None then stale_end else it"
  let ?s' = "(own_end s)\<lparr>buckets := map ?v (buckets (own_end s))\<rparr>"
  have a: "assign s = Some ?s'" using copy_set_stale[OF wf inv] by (simp add: assign_def)
  have "map ?u (map ?v (map ?u (buckets s))) = map ?u (buckets s)"
    by (simp add: comp_def stale_end_def)
  then have "own_end ?s' = own_end s" by (simp add: own_end_def)
  then show ?thesis using a by simp
qed

section \<open>Setting the maximal load factor\<close>

lemma find_upt_Some:
  assumes "List.find P [a..<b] = Some i"
  shows "a \<le> i \<and> i < b \<and> P i \<and> (\<forall>j. a \<le> j \<and> j < i \<longrightarrow> \<not> P j)"
proof -
  from assms obtain n where n: "n < length [a..<b]" "P ([a..<b] ! n)" "i = [a..<b] ! n"
    "\<forall>j<n. \<not> P ([a..<b] ! j)" unfolding find_Some_iff by blast
  have i: "i = a + n" and nb: "a + n < b" using n(1,3) by simp_all
  have "\<forall>j. a \<le> j \<and> j < i \<longrightarrow> \<not> P j"
  proof (intro allI impI)
    fix j assume j: "a \<le> j \<and> j < i"
    then have "j - a < n" using i by linarith
    moreover have "[a..<b] ! (j - a) = j" using j i nb by simp
    ultimately show "\<not> P j" using n(4) by metis
  qed
  then show ?thesis using n(2) i nb by simp
qed

lemma find_upt_None:
  assumes "List.find P [a..<b] = None"
  shows "\<forall>j. a \<le> j \<and> j < b \<longrightarrow> \<not> P j"
  using assms by (auto simp: find_None_iff)

lemma chained_maxLFactor [simp]: "chained (s\<lparr>maxLFactor := m\<rparr>) = chained s"
  by (simp add: chained_def)

lemma invar_maxLFactor [simp]: "invar sizes (s\<lparr>maxLFactor := m\<rparr>) = invar sizes s"
  by (simp add: invar_def)

lemma sorted_wrt_last_max:
  assumes "sorted_wrt (<) (xs :: nat list)" and "i < length xs"
  shows "xs ! i \<le> last xs"
proof -
  have "xs \<noteq> []" using assms(2) by auto
  then have l: "last xs = xs ! (length xs - 1)" by (simp add: last_conv_nth)
  show ?thesis
  proof (cases "i = length xs - 1")
    case True
    then show ?thesis using l by simp
  next
    case False
    then have "i < length xs - 1" using assms(2) by simp
    then have "xs ! i < xs ! (length xs - 1)"
      using assms by (simp add: sorted_wrt_nth_less)
    then show ?thesis using l by simp
  qed
qed

lemma invar_stale_maxLFactor [simp]:
  "invar_stale sizes (s\<lparr>maxLFactor := m\<rparr>) = invar_stale sizes s"
  by (simp add: invar_stale_def own_end_maxLFactor)

lemma loadFactor_maxLFactor [simp]: "loadFactor (s\<lparr>maxLFactor := m\<rparr>) = loadFactor s"
  by (simp add: loadFactor_def bucketCount_def)

lemma invar_stale_bounds:
  assumes "wf_sizes sizes" and "invar_stale sizes s"
  shows "0 < length (buckets s)" and "length (buckets s) \<le> 2 ^ 31"
  using invar_bounds[OF assms(1) invar_stale_own[OF assms(2)]] by simp_all

text \<open>
  An entry whose ratio meets a threshold that the current ratio exceeds is larger than
  the bucket count, and lies past the current index: rounding is monotone.
\<close>

lemma candidate_past:
  assumes wf: "wf_sizes sizes" and inv: "invar_stale sizes s"
    and over: "f32_less m (loadFactor s)"
    and i: "i < length sizes" and ok: "f32_le (f32_div (countElements s) (sizes ! i)) m"
  shows "length (buckets s) < sizes ! i \<and> currentPrimeIndex s < i"
proof -
  let ?n = "countElements s"
  let ?c = "length (buckets s)"
  have c: "0 < ?c" by (rule invar_stale_bounds(1)[OF wf inv])
  have x: "0 < sizes ! i" using wf_sizes_nth[OF wf i] by simp
  have lf: "loadFactor s = Finite (f32_ratio ?n ?c)"
    using c by (simp add: loadFactor_def bucketCount_def f32_div_pos)
  have "f32_le (Finite (f32_ratio ?n (sizes ! i))) m" using ok x by (simp add: f32_div_pos)
  then have lt: "f32_ratio ?n (sizes ! i) < f32_ratio ?n ?c"
    using over unfolding lf by (rule f32_le_less)
  have big: "?c < sizes ! i"
  proof (rule ccontr)
    assume "\<not> ?c < sizes ! i"
    then have "sizes ! i \<le> ?c" by simp
    then have "f32_ratio ?n ?c \<le> f32_ratio ?n (sizes ! i)" by (rule f32_ratio_antimono[OF x])
    then show False using lt by simp
  qed
  have srt: "sorted_wrt (<) sizes" using wf by (simp add: wf_sizes_def)
  have idx: "currentPrimeIndex s < length sizes"
    and cs: "?c = sizes ! currentPrimeIndex s \<or> ?c = last sizes"
    using invar_stale_own[OF inv] by (simp_all add: invar_def)
  have "?c \<noteq> last sizes" using big sorted_wrt_last_max[OF srt i] by simp
  then have ceq: "?c = sizes ! currentPrimeIndex s" using cs by simp
  have "currentPrimeIndex s < i"
  proof (rule ccontr)
    assume "\<not> currentPrimeIndex s < i"
    then have "i = currentPrimeIndex s \<or> i < currentPrimeIndex s" by linarith
    then have "sizes ! i \<le> sizes ! currentPrimeIndex s"
      using srt idx by (auto simp: sorted_wrt_nth_less less_imp_le)
    then show False using big ceq by simp
  qed
  then show ?thesis using big by simp
qed

text \<open>
  The index that the loop of the setter stops at names the first table entry past the
  current bucket count whose ratio meets the threshold.
\<close>

lemma first_candidate_find:
  assumes wf: "wf_sizes sizes" and inv: "invar_stale sizes s"
    and over: "f32_less m (loadFactor s)"
  shows "first_candidate sizes s m
           = map_option ((!) sizes)
               (List.find (\<lambda>i. f32_le (f32_div (countElements s) (sizes ! i)) m)
                  [currentPrimeIndex s + 1..<length sizes])"
proof -
  let ?n = "countElements s"
  let ?c = "length (buckets s)"
  let ?P = "\<lambda>i. f32_le (f32_div ?n (sizes ! i)) m"
  let ?Q = "\<lambda>x. ?c < x \<and> f32_le (f32_div ?n x) m"
  have fc: "first_candidate sizes s m = List.find ?Q sizes"
    by (simp add: first_candidate_def bucketCount_def size_hs_def)
  show ?thesis
  proof (cases "List.find ?P [currentPrimeIndex s + 1..<length sizes]")
    case None
    have "\<not> (\<exists>x. x \<in> set sizes \<and> ?Q x)"
    proof
      assume "\<exists>x. x \<in> set sizes \<and> ?Q x"
      then obtain i where i: "i < length sizes" and q: "?Q (sizes ! i)"
        by (auto simp: in_set_conv_nth)
      have "currentPrimeIndex s < i" using candidate_past[OF wf inv over i] q by simp
      then have "currentPrimeIndex s + 1 \<le> i \<and> i < length sizes" using i by simp
      then have "\<not> ?P i" using find_upt_None[OF None] by blast
      then show False using q by simp
    qed
    then have "List.find ?Q sizes = None" by (simp add: find_None_iff)
    then show ?thesis using None fc by simp
  next
    case (Some i)
    note f = find_upt_Some[OF Some]
    have i: "i < length sizes" and p: "?P i" using f by simp_all
    have q: "?Q (sizes ! i)" using candidate_past[OF wf inv over i] p by simp
    have "\<forall>j<i. \<not> ?Q (sizes ! j)"
    proof (intro allI impI)
      fix j assume j: "j < i"
      show "\<not> ?Q (sizes ! j)"
      proof
        assume qj: "?Q (sizes ! j)"
        have jl: "j < length sizes" using j i by simp
        have "currentPrimeIndex s < j" using candidate_past[OF wf inv over jl] qj by simp
        then have "currentPrimeIndex s + 1 \<le> j \<and> j < i" using j by simp
        then have "\<not> ?P j" using f by blast
        then show False using qj by simp
      qed
    qed
    then have "List.find ?Q sizes = Some (sizes ! i)"
      using i q unfolding find_Some_iff by blast
    then show ?thesis using Some fc by simp
  qed
qed

lemma set_maxLoadFactor_stale:
  assumes wf: "wf_sizes sizes" and inv: "invar_stale sizes s"
  shows "\<exists>s'. set_maxLoadFactor sizes s m = Some s' \<and> invar_stale sizes s'
            \<and> maxLFactor s' = m
            \<and> mset (iteration s') = mset (iteration s)
            \<and> countElements s' = countElements s
            \<and> (if f32_less m (loadFactor s)
                then (case first_candidate sizes s m of
                        Some x \<Rightarrow> rehash sizes (s\<lparr>maxLFactor := m\<rparr>) x = Some s'
                                  \<and> length (buckets s') = x
                      | None \<Rightarrow> s' = s\<lparr>maxLFactor := m\<rparr>)
                else s' = s\<lparr>maxLFactor := m\<rparr>)"
proof -
  let ?s1 = "s\<lparr>maxLFactor := m\<rparr>"
  let ?P = "\<lambda>i. f32_le (f32_div (countElements s) (sizes ! i)) m"
  have inv1: "invar_stale sizes ?s1" using inv by simp
  show ?thesis
  proof (cases "f32_less m (loadFactor s)")
    case False
    then show ?thesis using inv1 by (simp add: set_maxLoadFactor_def iteration_def)
  next
    case over: True
    note fc = first_candidate_find[OF wf inv over]
    show ?thesis
    proof (cases "List.find ?P [currentPrimeIndex s + 1..<length sizes]")
      case None
      then show ?thesis using over inv1 fc by (simp add: set_maxLoadFactor_def iteration_def)
    next
      case (Some i)
      have i: "i < length sizes" using find_upt_Some[OF Some] by simp
      from rehash_stale[OF wf inv1, of "sizes ! i"] obtain s' where
        r: "rehash sizes ?s1 (sizes ! i) = Some s'" and st: "invar_stale sizes s'"
        and k: "mset (iteration s') = mset (iteration ?s1)"
        and c: "countElements s' = countElements ?s1" and mx: "maxLFactor s' = maxLFactor ?s1"
        and sel: "select_size sizes (currentPrimeIndex ?s1) (sizes ! i)
                    = Some (length (buckets s'), currentPrimeIndex s')" by blast
      have "length (buckets s') = sizes ! i"
        using sel select_size_exact[OF wf i, of "currentPrimeIndex ?s1"] by simp
      then show ?thesis using Some over fc r st k c mx
        by (simp add: set_maxLoadFactor_def iteration_def)
    qed
  qed
qed

section \<open>Sequences of operations\<close>

text \<open>
  Every state that a sequence of operations reaches satisfies the invariant up to stale
  \<open>end()\<close> entries.
\<close>

lemma apply_op_invar_stale:
  assumes wf: "wf_sizes sizes" and inv: "invar_stale sizes s"
    and ap: "apply_op sizes s x = Some s'"
  shows "invar_stale sizes s'"
proof (cases x)
  case (Insert k)
  then show ?thesis using insert_key_stale(2)[OF wf inv, of k s'] ap by simp
next
  case (Erase k)
  then have e: "erase s k = Some s'" using ap by simp
  note e' = erase_own_end[OF invar_stale_nz[OF inv] e]
  have "invar sizes (own_end s')"
    using erase_spec[OF wf invar_stale_own[OF inv], of k] e'(1) by auto
  then show ?thesis using e'(2) by (rule invar_staleI)
next
  case (EraseAt it)
  then obtain it' where e: "erase_it s it = Some (s', it')" using ap by auto
  note e' = erase_it_own_end[OF invar_stale_nz[OF inv] e]
  have "invar sizes (own_end s')" by (rule erase_it_invar[OF wf invar_stale_own[OF inv] e'(1)])
  then show ?thesis using e'(2) by (rule invar_staleI)
next
  case (Rehash n)
  then show ?thesis using rehash_stale[OF wf inv, of n] ap by auto
next
  case (SetMaxLoadFactor m)
  then show ?thesis using set_maxLoadFactor_stale[OF wf inv, of m] ap by auto
next
  case Copy
  then have "s' = own_end s" using copy_set_stale[OF wf inv] ap by simp
  then show ?thesis using inv by (simp add: invar_stale_def)
next
  case Assign
  from assign_stale[OF wf inv] obtain t where "assign s = Some t" "own_end t = own_end s"
    "buckets t = map (\<lambda>it. if it = None then stale_end else it) (buckets (own_end s))" by blast
  moreover have "allKeys s' = allKeys s"
    using ap Assign copy_set_stale[OF wf inv] by (auto simp: assign_def)
  ultimately show ?thesis using inv ap Assign by (simp add: invar_stale_def)
qed

lemma run_invar_stale:
  assumes wf: "wf_sizes sizes"
  shows "invar_stale sizes s \<Longrightarrow> run sizes s xs = Some s' \<Longrightarrow> invar_stale sizes s'"
proof (induction xs arbitrary: s)
  case Nil
  then show ?case by simp
next
  case (Cons x xs)
  then obtain s1 where a: "apply_op sizes s x = Some s1" and r: "run sizes s1 xs = Some s'"
    by (auto split: option.splits)
  show ?case by (rule Cons.IH[OF apply_op_invar_stale[OF wf Cons.prems(1) a] r])
qed

lemma run_fresh_invar_stale:
  assumes wf: "wf_sizes sizes" and r: "run_fresh sizes xs = Some s"
  shows "invar_stale sizes s"
proof -
  from HashSet_invar_stale[OF wf] obtain s0 where "HashSet sizes = Some s0" "invar_stale sizes s0"
    by blast
  then show ?thesis using r run_invar_stale[OF wf, of s0 xs s] by (simp add: run_fresh_def)
qed

text \<open>
  A sequence of operations without an assignment leaves no stale entry: the states it
  reaches satisfy the invariant itself.
\<close>

lemma apply_op_no_stale:
  assumes wf: "wf_sizes sizes" and inv: "invar_stale sizes s" and own: "own_end s = s"
    and x: "x \<noteq> Assign" and ap: "apply_op sizes s x = Some s'"
  shows "own_end s' = s'"
proof (cases x)
  case (Insert k)
  then show ?thesis using insert_key_stale(1)[OF wf inv, of k s'] ap own by simp
next
  case (Erase k)
  then show ?thesis using erase_own_end(1)[OF invar_stale_nz[OF inv], of k s'] ap own by simp
next
  case (EraseAt it)
  then obtain it' where e: "erase_it s it = Some (s', it')" using ap by auto
  show ?thesis using erase_it_own_end(1)[OF invar_stale_nz[OF inv] e] e own by simp
next
  case (Rehash n)
  then show ?thesis using rehash_stale[OF wf inv, of n] ap by auto
next
  case (SetMaxLoadFactor m)
  let ?s1 = "s\<lparr>maxLFactor := m\<rparr>"
  have o1: "own_end ?s1 = ?s1" using own by (simp add: own_end_maxLFactor)
  have i1: "invar_stale sizes ?s1" using inv by simp
  have "s' = ?s1 \<or> (\<exists>n. rehash sizes ?s1 n = Some s')"
    using ap SetMaxLoadFactor by (auto simp: set_maxLoadFactor_def Let_def split: if_splits option.splits)
  then show ?thesis
  proof
    assume "s' = ?s1"
    then show ?thesis using o1 by simp
  next
    assume "\<exists>n. rehash sizes ?s1 n = Some s'"
    then obtain n where "rehash sizes ?s1 n = Some s'" by blast
    then show ?thesis using rehash_stale[OF wf i1, of n] by auto
  qed
next
  case Copy
  then show ?thesis using copy_set_stale[OF wf inv] ap by auto
next
  case Assign
  then show ?thesis using x by simp
qed

lemma run_no_stale:
  assumes wf: "wf_sizes sizes"
  shows "invar_stale sizes s \<Longrightarrow> own_end s = s \<Longrightarrow> Assign \<notin> set xs
         \<Longrightarrow> run sizes s xs = Some s' \<Longrightarrow> own_end s' = s'"
proof (induction xs arbitrary: s)
  case Nil
  then show ?case by simp
next
  case (Cons x xs)
  then obtain s1 where a: "apply_op sizes s x = Some s1" and r: "run sizes s1 xs = Some s'"
    by (auto split: option.splits)
  have x: "x \<noteq> Assign" and xs: "Assign \<notin> set xs" using Cons.prems(3) by auto
  show ?case
    by (rule Cons.IH[OF apply_op_invar_stale[OF wf Cons.prems(1) a]
                        apply_op_no_stale[OF wf Cons.prems(1,2) x a] xs r])
qed

lemma run_fresh_invar:
  assumes wf: "wf_sizes sizes" and na: "Assign \<notin> set xs" and r: "run_fresh sizes xs = Some s"
  shows "invar sizes s"
proof -
  from HashSet_invar[OF wf] obtain s0 where h: "HashSet sizes = Some s0" and i0: "invar sizes s0"
    and e: "allKeys s0 = []" by blast
  have nz: "0 \<notin> fst ` set (allKeys s0)" using e by simp
  have st: "invar_stale sizes s0" by (rule invar_stale_valid[OF i0 nz])
  have o: "own_end s0 = s0" by (rule own_end_id[OF invar_chained[OF i0] nz])
  have rr: "run sizes s0 xs = Some s" using r h by (simp add: run_fresh_def)
  have "own_end s = s" by (rule run_no_stale[OF wf st o na rr])
  then show ?thesis using invar_stale_own[OF run_invar_stale[OF wf st rr]] by simp
qed

section \<open>Runs of inserts\<close>

lemma run_inserts:
  assumes wf: "wf_sizes sizes"
  shows "invar sizes s \<Longrightarrow>
         \<exists>s'. run sizes s (map Insert ks) = Some s' \<and> invar sizes s'
              \<and> set (iteration s') = set (iteration s) \<union> set ks"
proof (induction ks arbitrary: s)
  case Nil
  then show ?case by simp
next
  case (Cons k ks)
  from insert_key_spec[OF wf Cons.prems, of k] obtain s1 where
    i: "insert_key sizes s k = Some s1" and inv1: "invar sizes s1"
    and k1: "set (iteration s1) = Set.insert k (set (iteration s))" by blast
  from Cons.IH[OF inv1] obtain s' where
    "run sizes s1 (map Insert ks) = Some s'" "invar sizes s'"
    "set (iteration s') = set (iteration s1) \<union> set ks" by blast
  then show ?case using i k1 by auto
qed

lemma size_card:
  assumes "invar sizes s"
  shows "size_hs s = card (set (iteration s))"
proof -
  have "distinct (map snd (allKeys s))" "countElements s = length (allKeys s)"
    using assms by (simp_all add: invar_def chained_def)
  then show ?thesis
    using distinct_card[of "map snd (allKeys s)"] by (simp add: size_hs_def iteration_def)
qed


lemma run_append:
  "run sizes s (xs @ ys) = (case run sizes s xs of None \<Rightarrow> None | Some s' \<Rightarrow> run sizes s' ys)"
  by (induction xs arbitrary: s) (auto split: option.splits)

lemma loadFactor_le_one:
  assumes "countElements s \<le> length (buckets s)"
  shows "\<not> f32_less (Finite 1) (loadFactor s)"
proof (cases "0 < length (buckets s)")
  case True
  then show ?thesis
    using f32_ratio_le_one[OF assms True] by (simp add: loadFactor_def bucketCount_def f32_div_pos)
next
  case False
  then show ?thesis by (simp add: loadFactor_def bucketCount_def)
qed

lemma inserts_growth_free:
  assumes wf: "wf_sizes sizes"
  shows "invar sizes s \<Longrightarrow> maxLFactor s = Finite 1 \<Longrightarrow> distinct ks
         \<Longrightarrow> set ks \<inter> set (iteration s) = {}
         \<Longrightarrow> countElements s + length ks \<le> length (buckets s) + 1
         \<Longrightarrow> \<exists>s'. run sizes s (map Insert ks) = Some s' \<and> invar sizes s'
                \<and> length (buckets s') = length (buckets s)
                \<and> countElements s' = countElements s + length ks
                \<and> maxLFactor s' = Finite 1
                \<and> currentPrimeIndex s' = currentPrimeIndex s"
proof (induction ks arbitrary: s)
  case Nil
  then show ?case by simp
next
  case (Cons k ks)
  have "countElements s \<le> length (buckets s)" using Cons.prems(5) by simp
  then have "\<not> f32_less (Finite 1) (loadFactor s)" by (rule loadFactor_le_one)
  then have ng: "\<not> needs_growth sizes s" using Cons.prems(2) by (simp add: needs_growth_def)
  have new: "k \<notin> set (iteration s)" using Cons.prems(4) by simp
  from insert_key_spec[OF wf Cons.prems(1), of k] new ng obtain s1 where
    i: "insert_key sizes s k = Some s1" and inv1: "invar sizes s1"
    and k1: "set (iteration s1) = Set.insert k (set (iteration s))"
    and m1: "maxLFactor s1 = maxLFactor s"
    and c1: "countElements s1 = countElements s + 1"
    and x1: "currentPrimeIndex s1 = currentPrimeIndex s"
    and l1: "length (buckets s1) = length (buckets s)" by auto
  have "set ks \<inter> set (iteration s1) = {}" using Cons.prems(3,4) k1 by auto
  moreover have "countElements s1 + length ks \<le> length (buckets s1) + 1"
    using Cons.prems(5) c1 l1 by simp
  moreover have "distinct ks" "maxLFactor s1 = Finite 1" using Cons.prems(2,3) m1 by simp_all
  ultimately obtain s' where
    "run sizes s1 (map Insert ks) = Some s'" "invar sizes s'"
    "length (buckets s') = length (buckets s1)"
    "countElements s' = countElements s1 + length ks"
    "maxLFactor s' = Finite 1" "currentPrimeIndex s' = currentPrimeIndex s1"
    using Cons.IH[OF inv1] by blast
  then show ?case using i c1 x1 l1 by simp
qed

lemma ex_wf: "wf_sizes [7, 17]"
  by (simp add: wf_sizes_def)

text \<open>Scenario 3 of the specification, on the code: eight distinct keys leave seven
  buckets, the ninth insert grows the table.\<close>

lemma scenario_eight_keys:
  assumes d: "distinct ks" and l: "length ks = 8"
  shows "\<exists>s. run_fresh [7, 17] (map Insert ks) = Some s \<and> invar [7, 17] s
           \<and> length (buckets s) = 7 \<and> countElements s = 8 \<and> maxLFactor s = Finite 1
           \<and> currentPrimeIndex s = 0 \<and> set (iteration s) = set ks"
proof -
  from HashSet_invar[OF ex_wf] obtain s0 where
    h: "HashSet [7, 17] = Some s0" and inv0: "invar [7, 17] s0" and e: "allKeys s0 = []"
    and c0: "countElements s0 = 0" and l0: "length (buckets s0) = [7, 17] ! 0"
    and m0: "maxLFactor s0 = Finite 1" and x0: "currentPrimeIndex s0 = 0" by blast
  have "set ks \<inter> set (iteration s0) = {}" using e by (simp add: iteration_def)
  moreover have "countElements s0 + length ks \<le> length (buckets s0) + 1" using c0 l0 l by simp
  ultimately obtain s where
    r: "run [7, 17] s0 (map Insert ks) = Some s" and "invar [7, 17] s"
    "length (buckets s) = length (buckets s0)" "countElements s = countElements s0 + length ks"
    "maxLFactor s = Finite 1" "currentPrimeIndex s = currentPrimeIndex s0"
    using inserts_growth_free[OF ex_wf inv0 m0 d] by blast
  moreover from run_inserts[OF ex_wf inv0, of ks] r
  have "set (iteration s) = set ks" using e by (simp add: iteration_def)
  ultimately show ?thesis using h c0 l0 x0 l by (simp add: run_fresh_def)
qed

lemma scenario_nine_keys:
  assumes d: "distinct ks" and l: "length ks = 9"
  shows "\<exists>s. run_fresh [7, 17] (map Insert ks) = Some s \<and> length (buckets s) = 17
           \<and> countElements s = 9"
proof -
  obtain ks' k where ks: "ks = ks' @ [k]"
    using l by (metis length_0_conv rev_exhaust zero_neq_numeral)
  have d': "distinct ks'" and l': "length ks' = 8" and new: "k \<notin> set ks'"
    using d l ks by simp_all
  from scenario_eight_keys[OF d' l'] obtain s where
    r: "run_fresh [7, 17] (map Insert ks') = Some s" and inv: "invar [7, 17] s"
    and b: "length (buckets s) = 7" and c: "countElements s = 8" and m: "maxLFactor s = Finite 1"
    and x: "currentPrimeIndex s = 0" and keys: "set (iteration s) = set ks'" by blast
  have g: "needs_growth [7, 17] s"
    using b c m x by (simp add: needs_growth_def loadFactor_def bucketCount_def ex_f32_div)
  have nk: "k \<notin> set (iteration s)" using new keys by simp
  from insert_key_spec[OF ex_wf inv, of k] nk g x obtain s' where
    "insert_key [7, 17] s k = Some s'" "countElements s' = countElements s + 1"
    "length (buckets s') = [7, 17] ! 1" by auto
  then show ?thesis
    using r c unfolding ks run_fresh_def
    by (auto simp: run_append split: option.splits)
qed

section \<open>Concrete instances\<close>

text \<open>The table \<open>[7, 17]\<close> of the specification's scenarios, and states reached with it.\<close>

lemma ex_invar3:
  "invar [7, 17] \<lparr>allKeys = [(1, 1), (3, 8), (2, - 5)],
                  buckets = [None, Some 1, Some 2, None, None, None, None],
                  countElements = 3, maxLFactor = Finite 1, currentPrimeIndex = 0\<rparr>"
  by (simp add: invar_def chained_def heads_def bidx_def upt_rec)

lemma ex_bucket7:
  "bucket_index 7 1 = Some 1" "bucket_index 7 2 = Some 2" "bucket_index 7 3 = Some 3"
  "bucket_index 7 4 = Some 4" "bucket_index 7 5 = Some 5" "bucket_index 7 6 = Some 6"
  "bucket_index 7 7 = Some 0" "bucket_index 7 8 = Some 1" "bucket_index 7 9 = Some 2"
  "bucket_index 7 (- 5) = Some 2"
  by (simp_all add: bucket_index_def to_int_def c_rem_def)

lemma replicate_7: "replicate 7 x = [x, x, x, x, x, x, x]"
  by (simp add: numeral_eq_Suc)

lemma Suc_7: "Suc (Suc (Suc (Suc (Suc (Suc (Suc 0)))))) = 7"
  by simp

lemma list_update_numeral: "(x # xs)[numeral n := v] = x # xs[pred_numeral n := v]"
  by (simp add: numeral_eq_Suc)

lemma ex_loadFactor7: "n \<le> 7 \<Longrightarrow> f32_less (Finite 1) (f32_div n 7) \<longleftrightarrow> False"
  using f32_ratio_le_one[of n 7] by (simp add: f32_div_pos not_less)

lemmas eval_defs =
  run_fresh_def HashSet_def insert_key_def contains_def bucket_def
  at_index_def from_it_def needs_growth_def loadFactor_def bucketCount_def
  insert_node_def insert_pos_def list_insert_def distance_def position_def
  maxLoadFactor_def size_hs_def replicate_7 Suc_7 list_update_numeral ex_bucket7
  ex_loadFactor7

lemma ex_run8:
  "run_fresh [7, 17] [Insert 1, Insert 2, Insert 3, Insert 4, Insert 5, Insert 6, Insert 7, Insert 8]
     = Some \<lparr>allKeys = [(7, 7), (1, 1), (8, 8), (2, 2), (3, 3), (4, 4), (5, 5), (6, 6)],
              buckets = [Some 7, Some 1, Some 2, Some 3, Some 4, Some 5, Some 6],
              countElements = 8, maxLFactor = Finite 1, currentPrimeIndex = 0\<rparr>"
  by (simp add: eval_defs)

lemma ex_run3:
  "run_fresh [7, 17] [Insert 1, Insert (- 5), Insert 8]
     = Some \<lparr>allKeys = [(1, 1), (3, 8), (2, - 5)],
              buckets = [None, Some 1, Some 2, None, None, None, None],
              countElements = 3, maxLFactor = Finite 1, currentPrimeIndex = 0\<rparr>"
  by (simp add: eval_defs)

lemma ex_invar8:
  "invar [7, 17] \<lparr>allKeys = [(7, 7), (1, 1), (8, 8), (2, 2), (3, 3), (4, 4), (5, 5), (6, 6)],
              buckets = [Some 7, Some 1, Some 2, Some 3, Some 4, Some 5, Some 6],
              countElements = 8, maxLFactor = Finite 1, currentPrimeIndex = 0\<rparr>"
  by (simp add: invar_def chained_def heads_def bidx_def upt_rec)

text \<open>States after an assignment: every empty bucket holds the stale \<open>end()\<close>.\<close>

lemma ex_copy3:
  "copy_set \<lparr>allKeys = [(1, 1), (3, 8), (2, - 5)],
              buckets = [None, Some 1, Some 2, None, None, None, None],
              countElements = 3, maxLFactor = Finite 1, currentPrimeIndex = 0\<rparr>
     = Some \<lparr>allKeys = [(1, 1), (3, 8), (2, - 5)],
              buckets = [None, Some 1, Some 2, None, None, None, None],
              countElements = 3, maxLFactor = Finite 1, currentPrimeIndex = 0\<rparr>"
  by (rule copy_set_id[OF ex_wf ex_invar3])

lemma run_fresh_append:
  "run_fresh sizes (xs @ ys)
     = (case run_fresh sizes xs of None \<Rightarrow> None | Some s \<Rightarrow> run sizes s ys)"
  by (simp add: run_fresh_def run_append split: option.splits)

lemma ex_assign3:
  "run_fresh [7, 17] [Insert 1, Insert (- 5), Insert 8, Assign]
     = Some \<lparr>allKeys = [(1, 1), (3, 8), (2, - 5)],
              buckets = [stale_end, Some 1, Some 2, stale_end, stale_end, stale_end, stale_end],
              countElements = 3, maxLFactor = Finite 1, currentPrimeIndex = 0\<rparr>"
proof -
  have e: "[Insert 1, Insert (- 5), Insert 8, Assign] = [Insert 1, Insert (- 5), Insert 8] @ [Assign]"
    by simp
  show ?thesis
    unfolding e run_fresh_append ex_run3 option.case run.simps apply_op.simps assign_def ex_copy3
    by simp
qed

lemma ex_assign0:
  "run_fresh [7, 17] [Assign]
     = Some \<lparr>allKeys = [],
              buckets = [stale_end, stale_end, stale_end, stale_end, stale_end, stale_end, stale_end],
              countElements = 0, maxLFactor = Finite 1, currentPrimeIndex = 0\<rparr>"
  by (simp add: run_fresh_def HashSet_def assign_def copy_set_def replicate_7)

lemma ex_invar_stale3:
  "invar_stale [7, 17] \<lparr>allKeys = [(1, 1), (3, 8), (2, - 5)],
              buckets = [stale_end, Some 1, Some 2, stale_end, stale_end, stale_end, stale_end],
              countElements = 3, maxLFactor = Finite 1, currentPrimeIndex = 0\<rparr>"
  by (rule run_fresh_invar_stale[OF ex_wf ex_assign3])

lemma ex_invar_stale8:
  "invar_stale [7, 17] \<lparr>allKeys = [(7, 7), (1, 1), (8, 8), (2, 2), (3, 3), (4, 4), (5, 5), (6, 6)],
              buckets = [Some 7, Some 1, Some 2, Some 3, Some 4, Some 5, Some 6],
              countElements = 8, maxLFactor = Finite 1, currentPrimeIndex = 0\<rparr>"
  by (rule run_fresh_invar_stale[OF ex_wf ex_run8])

section \<open>The claims\<close>

text \<open>
  The claim C1 as stated fails on its own scenario: with the table \<open>[7, 17]\<close> and the
  default maximal load factor, eight distinct keys inserted into a fresh instance leave
  seven buckets and a load factor of \<open>9586981 / 2^23\<close>, the \<open>float\<close> nearest to \<open>8/7\<close>, above
  the maximum, while the table is not exhausted (the current index is 0). The test before
  the eighth insert compares \<open>7/7\<close> with \<open>1.0\<close>.
\<close>

theorem C1_counterexample:
  "map_option bucketCount
     (run_fresh [7, 17]
        [Insert 1, Insert 2, Insert 3, Insert 4, Insert 5, Insert 6, Insert 7, Insert 8]) = Some 7
   \<and> map_option loadFactor
     (run_fresh [7, 17]
        [Insert 1, Insert 2, Insert 3, Insert 4, Insert 5, Insert 6, Insert 7, Insert 8])
       = Some (Finite (9586981 / 8388608))
   \<and> map_option maxLoadFactor
     (run_fresh [7, 17]
        [Insert 1, Insert 2, Insert 3, Insert 4, Insert 5, Insert 6, Insert 7, Insert 8])
       = Some (Finite 1)
   \<and> map_option currentPrimeIndex
     (run_fresh [7, 17]
        [Insert 1, Insert 2, Insert 3, Insert 4, Insert 5, Insert 6, Insert 7, Insert 8]) = Some 0
   \<and> \<not> f32_le (Finite (9586981 / 8388608)) (Finite 1)"
  unfolding ex_run8 by (simp add: bucketCount_def loadFactor_def maxLoadFactor_def Suc_7 ex_f32_div)

text \<open>
  Claim C1, as amended. \<open>insert\<close> tests the load factor before the key is added, on the
  elements already stored, in \<open>float\<close>. In every state that the public operations reach,
  for every insert of a new key that returns: \<open>size()\<close> has grown by one, the key has
  joined the keys of the iteration, the maximal load factor is what it was, and if
  \<open>loadFactor() > maxLoadFactor()\<close> held before the insert and a later table entry exists,
  the bucket count is the table entry after the current index, otherwise it is unchanged.
  The insert does return when no bucket holds a stale \<open>end()\<close>. In particular, with the
  table \<open>[7, 17]\<close> and the maximal load factor 1.0, eight distinct keys inserted into a
  fresh instance leave \<open>bucketCount() == 7\<close> with \<open>loadFactor()\<close> the \<open>float\<close> nearest to \<open>8/7\<close>;
  the grow to 17 happens during the ninth insert, so nine distinct keys give
  \<open>bucketCount() == 17\<close>.
\<close>

theorem C1_growth_checked_before_insert:
  assumes wf: "wf_sizes sizes" and inv: "invar_stale sizes s" and new: "k \<notin> set (iteration s)"
  shows "(stale_end \<notin> set (buckets s) \<longrightarrow> (\<exists>s'. insert_key sizes s k = Some s'))
       \<and> (\<forall>s'. insert_key sizes s k = Some s' \<longrightarrow>
              size_hs s' = size_hs s + 1
            \<and> set (iteration s') = Set.insert k (set (iteration s))
            \<and> maxLoadFactor s' = maxLoadFactor s
            \<and> (if f32_less (maxLoadFactor s) (loadFactor s)
                   \<and> currentPrimeIndex s + 1 < length sizes
                then bucketCount s' = sizes ! (currentPrimeIndex s + 1)
                else bucketCount s' = bucketCount s))
       \<and> (\<forall>ks. distinct ks \<and> length ks = 8 \<longrightarrow>
              map_option bucketCount (run_fresh [7, 17] (map Insert ks)) = Some 7
              \<and> map_option loadFactor (run_fresh [7, 17] (map Insert ks))
                  = Some (Finite (9586981 / 8388608)))
       \<and> (\<forall>ks. distinct ks \<and> length ks = 9 \<longrightarrow>
              map_option bucketCount (run_fresh [7, 17] (map Insert ks)) = Some 17)"
proof -
  note own = invar_stale_own[OF inv]
  have new': "k \<notin> set (iteration (own_end s))" using new by simp
  from insert_key_spec[OF wf own, of k] new' obtain t where
    it: "insert_key sizes (own_end s) k = Some t" and m: "maxLFactor t = maxLFactor s"
    and keys: "set (iteration t) = Set.insert k (set (iteration s))"
    and cnt: "countElements t = countElements s + 1"
    and g: "if needs_growth sizes s
            then currentPrimeIndex t = currentPrimeIndex s + 1
                 \<and> length (buckets t) = sizes ! (currentPrimeIndex s + 1)
            else currentPrimeIndex t = currentPrimeIndex s
                 \<and> length (buckets t) = length (buckets s)"
    by auto
  have returns: "stale_end \<notin> set (buckets s) \<longrightarrow> (\<exists>s'. insert_key sizes s k = Some s')"
  proof
    assume "stale_end \<notin> set (buckets s)"
    then have "map (\<lambda>it. if it = stale_end then None else it) (buckets s) = buckets s"
      by (intro map_idI) auto
    then have "own_end s = s" by (simp add: own_end_def)
    then show "\<exists>s'. insert_key sizes s k = Some s'" using it by auto
  qed
  have after: "\<forall>s'. insert_key sizes s k = Some s' \<longrightarrow>
              size_hs s' = size_hs s + 1
            \<and> set (iteration s') = Set.insert k (set (iteration s))
            \<and> maxLoadFactor s' = maxLoadFactor s
            \<and> (if f32_less (maxLoadFactor s) (loadFactor s)
                   \<and> currentPrimeIndex s + 1 < length sizes
                then bucketCount s' = sizes ! (currentPrimeIndex s + 1)
                else bucketCount s' = bucketCount s)"
  proof (intro allI impI)
    fix s' assume "insert_key sizes s k = Some s'"
    then have t: "t = own_end s'" using insert_key_stale(1)[OF wf inv] it by simp
    show "size_hs s' = size_hs s + 1
            \<and> set (iteration s') = Set.insert k (set (iteration s))
            \<and> maxLoadFactor s' = maxLoadFactor s
            \<and> (if f32_less (maxLoadFactor s) (loadFactor s)
                   \<and> currentPrimeIndex s + 1 < length sizes
                then bucketCount s' = sizes ! (currentPrimeIndex s + 1)
                else bucketCount s' = bucketCount s)"
      using m keys cnt g unfolding t
      by (auto simp: needs_growth_def maxLoadFactor_def bucketCount_def size_hs_def)
  qed
  have eight: "\<forall>ks. distinct ks \<and> length ks = 8 \<longrightarrow>
              map_option bucketCount (run_fresh [7, 17] (map Insert ks)) = Some 7
              \<and> map_option loadFactor (run_fresh [7, 17] (map Insert ks))
                  = Some (Finite (9586981 / 8388608))"
  proof (intro allI impI)
    fix ks :: "key list" assume "distinct ks \<and> length ks = 8"
    then obtain s8 where "run_fresh [7, 17] (map Insert ks) = Some s8"
      "length (buckets s8) = 7" "countElements s8 = 8"
      using scenario_eight_keys[of ks] by blast
    then show "map_option bucketCount (run_fresh [7, 17] (map Insert ks)) = Some 7
              \<and> map_option loadFactor (run_fresh [7, 17] (map Insert ks))
                  = Some (Finite (9586981 / 8388608))"
      by (simp add: bucketCount_def loadFactor_def ex_f32_div)
  qed
  have nine: "\<forall>ks. distinct ks \<and> length ks = 9 \<longrightarrow>
              map_option bucketCount (run_fresh [7, 17] (map Insert ks)) = Some 17"
  proof (intro allI impI)
    fix ks :: "key list" assume "distinct ks \<and> length ks = 9"
    then obtain s9 where "run_fresh [7, 17] (map Insert ks) = Some s9"
      "length (buckets s9) = 17"
      using scenario_nine_keys[of ks] by blast
    then show "map_option bucketCount (run_fresh [7, 17] (map Insert ks)) = Some 17"
      by (simp add: bucketCount_def)
  qed
  show ?thesis using returns after eight nine by blast
qed

theorem C1_growth_checked_before_insert_witness:
  "wf_sizes [7, 17]
   \<and> invar_stale [7, 17] \<lparr>allKeys = [(7, 7), (1, 1), (8, 8), (2, 2), (3, 3), (4, 4), (5, 5), (6, 6)],
              buckets = [Some 7, Some 1, Some 2, Some 3, Some 4, Some 5, Some 6],
              countElements = 8, maxLFactor = Finite 1, currentPrimeIndex = 0\<rparr>
   \<and> (9 :: key) \<notin> set (iteration \<lparr>allKeys = [(7, 7), (1, 1), (8, 8), (2, 2), (3, 3), (4, 4), (5, 5), (6, 6)],
              buckets = [Some 7, Some 1, Some 2, Some 3, Some 4, Some 5, Some 6],
              countElements = 8, maxLFactor = Finite 1, currentPrimeIndex = 0\<rparr>)
   \<and> (\<exists>s'. insert_key [7, 17] \<lparr>allKeys = [(7, 7), (1, 1), (8, 8), (2, 2), (3, 3), (4, 4), (5, 5), (6, 6)],
              buckets = [Some 7, Some 1, Some 2, Some 3, Some 4, Some 5, Some 6],
              countElements = 8, maxLFactor = Finite 1, currentPrimeIndex = 0\<rparr> 9 = Some s'
          \<and> size_hs s' = 9 \<and> bucketCount s' = 17)
   \<and> map_option bucketCount (run_fresh [7, 17] (map Insert [1, 2, 3, 4, 5, 6, 7, 8])) = Some 7
   \<and> map_option bucketCount (run_fresh [7, 17] (map Insert [1, 2, 3, 4, 5, 6, 7, 8, 9])) = Some 17"
proof -
  let ?s = "\<lparr>allKeys = [(7, 7), (1, 1), (8, 8), (2, 2), (3, 3), (4, 4), (5, 5), (6, 6)],
              buckets = [Some 7, Some 1, Some 2, Some 3, Some 4, Some 5, Some 6],
              countElements = 8, maxLFactor = Finite 1, currentPrimeIndex = 0\<rparr>"
  have new: "(9 :: key) \<notin> set (iteration ?s)" by (simp add: iteration_def)
  note t = C1_growth_checked_before_insert[OF ex_wf ex_invar_stale8 new]
  have d8: "distinct [1, 2, 3, 4, 5, 6, 7, 8 :: key] \<and> length [1, 2, 3, 4, 5, 6, 7, 8 :: key] = 8"
    by simp
  have d9: "distinct [1, 2, 3, 4, 5, 6, 7, 8, 9 :: key] \<and> length [1, 2, 3, 4, 5, 6, 7, 8, 9 :: key] = 9"
    by simp
  have "stale_end \<notin> set (buckets ?s)" by (simp add: stale_end_def)
  then obtain s' where i: "insert_key [7, 17] ?s 9 = Some s'" using t by blast
  then have "size_hs s' = size_hs ?s + 1"
    "if f32_less (maxLoadFactor ?s) (loadFactor ?s) \<and> currentPrimeIndex ?s + 1 < length [7, 17 :: nat]
     then bucketCount s' = [7, 17] ! (currentPrimeIndex ?s + 1)
     else bucketCount s' = bucketCount ?s" using t by blast+
  then have "insert_key [7, 17] ?s 9 = Some s' \<and> size_hs s' = 9 \<and> bucketCount s' = 17"
    using i by (simp add: size_hs_def loadFactor_def maxLoadFactor_def bucketCount_def Suc_7 ex_f32_div)
  then show ?thesis using t d8 d9 ex_wf ex_invar_stale8 new by blast
qed



text \<open>
  Claim C3. In every state that a fresh instance reaches by a sequence of public
  operations (insert, erase by key, erase at an iterator, rehash, setting the maximal
  load factor, copy construction, assignment), \<open>bucket\<close> is defined on every key of the
  iteration from \<open>begin()\<close> to \<open>end()\<close>, the bucket indexes along the iteration are
  non-decreasing, and the keys of one bucket form one contiguous run: between two
  positions with the same bucket index, every position has that bucket index. A sequence
  in which an operation has undefined behaviour reaches no state.
\<close>

theorem C3_iteration_in_bucket_order:
  assumes wf: "wf_sizes sizes" and r: "run_fresh sizes ops = Some s"
  shows "\<exists>bs. map (bucket s) (iteration s) = map Some bs
            \<and> sorted bs
            \<and> (\<forall>i j l. i \<le> j \<and> j \<le> l \<and> l < length bs \<and> bs ! i = bs ! l \<longrightarrow> bs ! j = bs ! i)"
proof -
  let ?c = "length (buckets s)"
  define bs where "bs = map (bidx ?c) (iteration s)"
  have st: "invar_stale sizes s" by (rule run_fresh_invar_stale[OF wf r])
  note c = invar_stale_bounds[OF wf st]
  have "\<And>k. bucket s k = Some (bidx ?c k)"
    unfolding bucket_def by (rule bucket_index_ok[OF c])
  then have m: "map (bucket s) (iteration s) = map Some bs" by (simp add: bs_def)
  have "sorted (map (\<lambda>n. bidx ?c (snd n)) (allKeys s))"
    using invar_stale_own[OF st] by (simp add: invar_def chained_def)
  then have srt: "sorted bs" by (simp add: bs_def iteration_def comp_def)
  have "\<forall>i j l. i \<le> j \<and> j \<le> l \<and> l < length bs \<and> bs ! i = bs ! l \<longrightarrow> bs ! j = bs ! i"
  proof (intro allI impI)
    fix i j l assume a: "i \<le> j \<and> j \<le> l \<and> l < length bs \<and> bs ! i = bs ! l"
    then have "bs ! i \<le> bs ! j" using sorted_nth_mono[OF srt, of i j] by linarith
    moreover have "bs ! j \<le> bs ! l" using a sorted_nth_mono[OF srt, of j l] by linarith
    ultimately show "bs ! j = bs ! i" using a by linarith
  qed
  then show ?thesis using m srt by blast
qed

theorem C3_iteration_in_bucket_order_witness:
  "wf_sizes [7, 17]
   \<and> run_fresh [7, 17] [Insert 1, Insert (- 5), Insert 8, Assign]
       = Some \<lparr>allKeys = [(1, 1), (3, 8), (2, - 5)],
                buckets = [stale_end, Some 1, Some 2, stale_end, stale_end, stale_end, stale_end],
                countElements = 3, maxLFactor = Finite 1, currentPrimeIndex = 0\<rparr>
   \<and> (\<exists>bs. map (bucket \<lparr>allKeys = [(1, 1), (3, 8), (2, - 5)],
                buckets = [stale_end, Some 1, Some 2, stale_end, stale_end, stale_end, stale_end],
                countElements = 3, maxLFactor = Finite 1, currentPrimeIndex = 0\<rparr>) [1, 8, - 5]
              = map Some bs
          \<and> sorted bs)"
proof -
  let ?s = "\<lparr>allKeys = [(1, 1), (3, 8), (2, - 5)],
             buckets = [stale_end, Some 1, Some 2, stale_end, stale_end, stale_end, stale_end],
             countElements = 3, maxLFactor = Finite 1, currentPrimeIndex = 0\<rparr>"
  from C3_iteration_in_bucket_order[OF ex_wf ex_assign3]
  obtain bs where "map (bucket ?s) (iteration ?s) = map Some bs" "sorted bs" by blast
  then have "map (bucket ?s) [1, 8, - 5] = map Some bs \<and> sorted bs"
    by (simp add: iteration_def)
  then show ?thesis using ex_wf ex_assign3 by blast
qed

text \<open>
  What \<open>rehash\<close> establishes: when some table entry reaches the requested size, the bucket
  count is the smallest such entry and the current index names it; otherwise the bucket
  count is the largest entry and the current index is left as it was.
\<close>

lemma rehash_bucket_count:
  assumes wf: "wf_sizes sizes" and inv: "invar sizes s"
  shows "\<exists>s'. rehash sizes s n = Some s'
            \<and> (if \<exists>x\<in>set sizes. n \<le> x
                then bucketCount s' = Min {x \<in> set sizes. n \<le> x}
                     \<and> sizes ! currentPrimeIndex s' = bucketCount s'
                else bucketCount s' = last sizes
                     \<and> currentPrimeIndex s' = currentPrimeIndex s)"
proof -
  have ne: "sizes \<noteq> []" and srt: "sorted_wrt (<) sizes" using wf by (simp_all add: wf_sizes_def)
  from rehash_spec[OF wf inv, of n] obtain s' where
    r: "rehash sizes s n = Some s'"
    and sel: "select_size sizes (currentPrimeIndex s) n
                = Some (length (buckets s'), currentPrimeIndex s')" by blast
  from select_size_cases[OF ne, of "currentPrimeIndex s" n]
  show ?thesis
  proof
    assume "\<exists>i. select_size sizes (currentPrimeIndex s) n = Some (sizes ! i, i) \<and> i < length sizes
              \<and> n \<le> sizes ! i \<and> (\<forall>j<i. sizes ! j < n)"
    then obtain i where s: "select_size sizes (currentPrimeIndex s) n = Some (sizes ! i, i)"
      and i: "i < length sizes" and ge: "n \<le> sizes ! i" and lt: "\<forall>j<i. sizes ! j < n" by blast
    have c: "length (buckets s') = sizes ! i" and x: "currentPrimeIndex s' = i"
      using s sel by simp_all
    have "Min {x \<in> set sizes. n \<le> x} = sizes ! i"
    proof (rule Min_eqI)
      show "finite {x \<in> set sizes. n \<le> x}" by simp
      show "sizes ! i \<in> {x \<in> set sizes. n \<le> x}" using i ge by simp
      fix y assume "y \<in> {x \<in> set sizes. n \<le> x}"
      then obtain j where j: "j < length sizes" "y = sizes ! j" "n \<le> sizes ! j"
        by (auto simp: in_set_conv_nth)
      have "\<not> j < i" using lt j(3) by auto
      then have "i = j \<or> i < j" by linarith
      then show "sizes ! i \<le> y" using srt j(1,2) by (auto simp: sorted_wrt_nth_less less_imp_le)
    qed
    moreover have "\<exists>x\<in>set sizes. n \<le> x" using i ge by (metis nth_mem)
    ultimately show ?thesis using r c x by (auto simp: bucketCount_def)
  next
    assume a: "select_size sizes (currentPrimeIndex s) n = Some (last sizes, currentPrimeIndex s)
               \<and> (\<forall>x\<in>set sizes. x < n)"
    then have "\<not> (\<exists>x\<in>set sizes. n \<le> x)" by auto
    then show ?thesis using r a sel by (auto simp: bucketCount_def)
  qed
qed

text \<open>
  Claim C5 on the code, where no table entry reaches the requested size: with the table
  \<open>[7, 17]\<close>, \<open>rehash(18)\<close> on a fresh instance sets the bucket count to the largest entry 17
  and leaves the current index at 0, where the table holds 7. The fallback
  \<open>newBCount = sizes.back()\<close> is paired with \<open>newPrimeIndex = currentPrimeIndex\<close>.
\<close>

theorem C5_fallback_leaves_index:
  "map_option bucketCount (run_fresh [7, 17] [Rehash 18]) = Some 17
   \<and> map_option currentPrimeIndex (run_fresh [7, 17] [Rehash 18]) = Some 0
   \<and> [7, 17] ! 0 = (7 :: nat)"
proof -
  from HashSet_invar[OF ex_wf] obtain s0 where
    h: "HashSet [7, 17] = Some s0" and inv0: "invar [7, 17] s0"
    and x0: "currentPrimeIndex s0 = 0" by blast
  have sel: "select_size [7, 17] 0 18 = Some (17, 0)"
    by (simp add: select_size_def upt_rec)
  from rehash_spec[OF ex_wf inv0, of 18] obtain s' where
    "rehash [7, 17] s0 18 = Some s'"
    "select_size [7, 17] (currentPrimeIndex s0) 18 = Some (length (buckets s'), currentPrimeIndex s')"
    by blast
  then show ?thesis using h x0 sel by (simp add: run_fresh_def bucketCount_def)
qed

text \<open>
  Claim C6. In every state that satisfies the invariant, \<open>insert(k)\<close> of a key for which
  \<open>contains\<close> returns true returns the state unchanged (so \<open>size()\<close> and the iteration
  sequence are unchanged), and \<open>contains\<close> returns true for every key of the iteration;
  and for every sequence of inserts into a fresh instance, no insert faults and \<open>size()\<close>
  is the number of distinct inserted keys.
\<close>

theorem C6_insert_idempotent:
  assumes wf: "wf_sizes sizes" and inv: "invar sizes s"
  shows "(contains s k = Some True \<longrightarrow> insert_key sizes s k = Some s)
       \<and> (k \<in> set (iteration s) \<longrightarrow> contains s k = Some True)
       \<and> (\<exists>s'. run_fresh sizes (map Insert ks) = Some s' \<and> size_hs s' = card (set ks))"
proof -
  have a: "contains s k = Some True \<longrightarrow> insert_key sizes s k = Some s"
    by (simp add: insert_key_def)
  have b: "k \<in> set (iteration s) \<longrightarrow> contains s k = Some True"
    using contains_correct[OF invar_chained[OF inv] invar_bounds[OF wf inv], of k] by simp
  from HashSet_invar[OF wf] obtain s0 where
    h: "HashSet sizes = Some s0" and inv0: "invar sizes s0" and e: "allKeys s0 = []" by blast
  from run_inserts[OF wf inv0, of ks] obtain s' where
    r: "run sizes s0 (map Insert ks) = Some s'" and inv': "invar sizes s'"
    and keys: "set (iteration s') = set (iteration s0) \<union> set ks" by blast
  have "size_hs s' = card (set ks)"
    using size_card[OF inv'] keys e by (simp add: iteration_def)
  then have "\<exists>s'. run_fresh sizes (map Insert ks) = Some s' \<and> size_hs s' = card (set ks)"
    using h r by (simp add: run_fresh_def)
  then show ?thesis using a b by blast
qed

theorem C6_insert_idempotent_witness:
  "wf_sizes [7, 17]
   \<and> invar [7, 17] \<lparr>allKeys = [(1, 1), (3, 8), (2, - 5)],
                     buckets = [None, Some 1, Some 2, None, None, None, None],
                     countElements = 3, maxLFactor = Finite 1, currentPrimeIndex = 0\<rparr>
   \<and> insert_key [7, 17] \<lparr>allKeys = [(1, 1), (3, 8), (2, - 5)],
                     buckets = [None, Some 1, Some 2, None, None, None, None],
                     countElements = 3, maxLFactor = Finite 1, currentPrimeIndex = 0\<rparr> 8
       = Some \<lparr>allKeys = [(1, 1), (3, 8), (2, - 5)],
                     buckets = [None, Some 1, Some 2, None, None, None, None],
                     countElements = 3, maxLFactor = Finite 1, currentPrimeIndex = 0\<rparr>
   \<and> (\<exists>s'. run_fresh [7, 17] (map Insert [1, 8, 1]) = Some s' \<and> size_hs s' = 2)"
proof -
  let ?s = "\<lparr>allKeys = [(1, 1), (3, 8), (2, - 5)],
             buckets = [None, Some 1, Some 2, None, None, None, None],
             countElements = 3, maxLFactor = Finite 1, currentPrimeIndex = 0\<rparr>"
  note t = C6_insert_idempotent[OF ex_wf ex_invar3, of 8 "[1, 8, 1]"]
  have "(8 :: key) \<in> set (iteration ?s)" by (simp add: iteration_def)
  then have "insert_key [7, 17] ?s 8 = Some ?s" using t by blast
  moreover have "set [1, 8, 1 :: key] = {1, 8}" by auto
  then have "card (set [1, 8, 1 :: key]) = 2" by simp
  ultimately show ?thesis using t ex_wf ex_invar3 by simp
qed

text \<open>
  The round trip of insert and erase in the states that satisfy the invariant itself,
  where no bucket holds a stale \<open>end()\<close>: \<open>insert(k)\<close> returns a state in which \<open>contains(k)\<close>
  is true, and a subsequent \<open>erase(k)\<close> returns a state in which \<open>contains(k)\<close> is false;
  none of the four calls faults.
\<close>

lemma insert_erase_round_trip:
  assumes wf: "wf_sizes sizes" and inv: "invar sizes s"
  shows "\<exists>s1 s2. insert_key sizes s k = Some s1 \<and> contains s1 k = Some True
              \<and> erase s1 k = Some s2 \<and> contains s2 k = Some False"
proof -
  from insert_key_spec[OF wf inv, of k] obtain s1 where
    i: "insert_key sizes s k = Some s1" and inv1: "invar sizes s1"
    and k1: "set (iteration s1) = Set.insert k (set (iteration s))" by blast
  have c1: "contains s1 k = Some True"
    using contains_correct[OF invar_chained[OF inv1] invar_bounds[OF wf inv1], of k] k1 by simp
  from erase_spec[OF wf inv1, of k] obtain s2 where
    e: "erase s1 k = Some s2" and inv2: "invar sizes s2"
    and k2: "set (iteration s2) = set (iteration s1) - {k}" by blast
  have c2: "contains s2 k = Some False"
    using contains_correct[OF invar_chained[OF inv2] invar_bounds[OF wf inv2], of k] k2 by simp
  show ?thesis using i c1 e c2 by blast
qed

text \<open>
  Claim C7 on the code, in a state that an assignment has produced. With the table
  \<open>[7, 17]\<close>, the assignment of a fresh instance leaves the stale \<open>end()\<close> in each of the seven
  buckets of the target. \<open>insert(3)\<close> on the target begins with \<open>contains(3)\<close>, which reads
  \<open>buckets[3]\<close>, finds it different from \<open>allKeys.end()\<close> and dereferences it: the
  behaviour is undefined (\<open>None\<close>), so \<open>contains(3)\<close> is not true after \<open>insert(3)\<close>.
\<close>

theorem C7_insert_after_assignment:
  "run_fresh [7, 17] [Assign]
     = Some \<lparr>allKeys = [],
              buckets = [stale_end, stale_end, stale_end, stale_end, stale_end, stale_end, stale_end],
              countElements = 0, maxLFactor = Finite 1, currentPrimeIndex = 0\<rparr>
   \<and> contains \<lparr>allKeys = [],
              buckets = [stale_end, stale_end, stale_end, stale_end, stale_end, stale_end, stale_end],
              countElements = 0, maxLFactor = Finite 1, currentPrimeIndex = 0\<rparr> 3 = None
   \<and> insert_key [7, 17] \<lparr>allKeys = [],
              buckets = [stale_end, stale_end, stale_end, stale_end, stale_end, stale_end, stale_end],
              countElements = 0, maxLFactor = Finite 1, currentPrimeIndex = 0\<rparr> 3 = None
   \<and> run_fresh [7, 17] [Assign, Insert 3] = None"
proof -
  let ?s = "\<lparr>allKeys = [],
              buckets = [stale_end, stale_end, stale_end, stale_end, stale_end, stale_end, stale_end],
              countElements = 0, maxLFactor = Finite 1, currentPrimeIndex = 0\<rparr>"
  have c: "contains ?s 3 = None"
    by (simp add: contains_def bucket_def ex_bucket7 at_index_def Suc_7 from_it_def stale_end_def)
  have i: "insert_key [7, 17] ?s 3 = None" by (simp add: insert_key_def c)
  have e: "[Assign, Insert 3] = [Assign] @ [Insert 3]" by simp
  have "run_fresh [7, 17] [Assign, Insert 3] = None"
    unfolding e run_fresh_append ex_assign0 by (simp add: i)
  then show ?thesis using ex_assign0 c i by simp
qed

text \<open>
  Erasing a key that is not in the set, in the states that satisfy the invariant itself:
  \<open>contains\<close> returns false and \<open>erase\<close> returns, without fault, the state unchanged.
\<close>

lemma erase_absent_noop:
  assumes wf: "wf_sizes sizes" and inv: "invar sizes s" and k: "k \<notin> set (iteration s)"
  shows "contains s k = Some False \<and> erase s k = Some s"
  using contains_correct[OF invar_chained[OF inv] invar_bounds[OF wf inv], of k]
    erase_absent[OF invar_chained[OF inv] invar_bounds[OF wf inv] k] k
  by simp

text \<open>
  In every state that the public operations reach, an \<open>erase\<close> of an absent key that
  returns has changed nothing.
\<close>

lemma erase_absent_stale:
  assumes wf: "wf_sizes sizes" and inv: "invar_stale sizes s" and k: "k \<notin> set (iteration s)"
    and e: "erase s k = Some s'"
  shows "s' = s"
proof -
  note own = invar_stale_own[OF inv]
  from e obtain it where f: "find_key s k = Some it"
    unfolding erase_def by (auto simp: bind_eq_Some_conv)
  have "filter (\<lambda>n. snd n = k) (allKeys s) = []"
    using k by (auto simp: iteration_def filter_empty_conv)
  then have "find_key (own_end s) k = Some None"
    using find_key_correct[OF invar_chained[OF own] invar_bounds[OF wf own], of k] by simp
  then have "it = None" using find_key_own_end[OF invar_stale_nz[OF inv] f] by simp
  then show ?thesis using e f by (simp add: erase_def)
qed

text \<open>
  Claim C9 on the code, in a state that an assignment has produced. With the table
  \<open>[7, 17]\<close>, a set that holds 1, -5 and 8 is assigned; bucket 3 of the target is empty and
  holds the stale \<open>end()\<close>. The key 3 is not in the set. \<open>erase(3)\<close> calls \<open>find(3)\<close>, which
  reads \<open>buckets[3]\<close>, finds it different from \<open>allKeys.end()\<close> and dereferences it: the
  behaviour is undefined (\<open>None\<close>), where the claim promises a return without fault.
\<close>

theorem C9_erase_after_assignment:
  "run_fresh [7, 17] [Insert 1, Insert (- 5), Insert 8, Assign]
     = Some \<lparr>allKeys = [(1, 1), (3, 8), (2, - 5)],
              buckets = [stale_end, Some 1, Some 2, stale_end, stale_end, stale_end, stale_end],
              countElements = 3, maxLFactor = Finite 1, currentPrimeIndex = 0\<rparr>
   \<and> (3 :: key) \<notin> set (iteration \<lparr>allKeys = [(1, 1), (3, 8), (2, - 5)],
              buckets = [stale_end, Some 1, Some 2, stale_end, stale_end, stale_end, stale_end],
              countElements = 3, maxLFactor = Finite 1, currentPrimeIndex = 0\<rparr>)
   \<and> find_key \<lparr>allKeys = [(1, 1), (3, 8), (2, - 5)],
              buckets = [stale_end, Some 1, Some 2, stale_end, stale_end, stale_end, stale_end],
              countElements = 3, maxLFactor = Finite 1, currentPrimeIndex = 0\<rparr> 3 = None
   \<and> erase \<lparr>allKeys = [(1, 1), (3, 8), (2, - 5)],
              buckets = [stale_end, Some 1, Some 2, stale_end, stale_end, stale_end, stale_end],
              countElements = 3, maxLFactor = Finite 1, currentPrimeIndex = 0\<rparr> 3 = None
   \<and> run_fresh [7, 17] [Insert 1, Insert (- 5), Insert 8, Assign, Erase 3] = None"
proof -
  let ?s = "\<lparr>allKeys = [(1, 1), (3, 8), (2, - 5)],
              buckets = [stale_end, Some 1, Some 2, stale_end, stale_end, stale_end, stale_end],
              countElements = 3, maxLFactor = Finite 1, currentPrimeIndex = 0\<rparr>"
  have n: "(3 :: key) \<notin> set (iteration ?s)" by (simp add: iteration_def)
  have f: "find_key ?s 3 = None"
    by (simp add: find_key_def bucket_def ex_bucket7 at_index_def Suc_7 from_it_def stale_end_def)
  have e: "erase ?s 3 = None" unfolding erase_def f by simp
  have l: "[Insert 1, Insert (- 5), Insert 8, Assign, Erase 3]
             = [Insert 1, Insert (- 5), Insert 8, Assign] @ [Erase 3]" by simp
  have "run_fresh [7, 17] [Insert 1, Insert (- 5), Insert 8, Assign, Erase 3] = None"
    unfolding l run_fresh_append ex_assign3 option.case run.simps apply_op.simps e by simp
  then show ?thesis using ex_assign3 n f e by simp
qed

text \<open>Seven keys in ten buckets, with the table \<open>[10, 17]\<close>.\<close>

lemma ex_wf_10: "wf_sizes [10, 17]"
  by (simp add: wf_sizes_def)

lemma scenario_seven_in_ten:
  "\<exists>s. run_fresh [10, 17] (map Insert [1, 2, 3, 4, 5, 6, 7]) = Some s
       \<and> length (buckets s) = 10 \<and> countElements s = 7 \<and> currentPrimeIndex s = 0"
proof -
  from HashSet_invar[OF ex_wf_10] obtain s0 where
    h: "HashSet [10, 17] = Some s0" and inv0: "invar [10, 17] s0" and e: "allKeys s0 = []"
    and c0: "countElements s0 = 0" and l0: "length (buckets s0) = [10, 17] ! 0"
    and m0: "maxLFactor s0 = Finite 1" and x0: "currentPrimeIndex s0 = 0" by blast
  have d: "distinct [1, 2, 3, 4, 5, 6, 7 :: key]" by simp
  have "set [1, 2, 3, 4, 5, 6, 7 :: key] \<inter> set (iteration s0) = {}"
    using e by (simp add: iteration_def)
  moreover have "countElements s0 + length [1, 2, 3, 4, 5, 6, 7 :: key] \<le> length (buckets s0) + 1"
    using c0 l0 by simp
  ultimately obtain s where
    "run [10, 17] s0 (map Insert [1, 2, 3, 4, 5, 6, 7]) = Some s"
    "length (buckets s) = length (buckets s0)"
    "countElements s = countElements s0 + length [1, 2, 3, 4, 5, 6, 7 :: key]"
    "currentPrimeIndex s = currentPrimeIndex s0"
    using inserts_growth_free[OF ex_wf_10 inv0 m0 d] by blast
  then show ?thesis using h c0 l0 x0 by (simp add: run_fresh_def)
qed

text \<open>
  The claim C8 as stated, with the ratios \<open>elementCount / bucketCount\<close> and
  \<open>elementCount / s\<close> as quotients of numbers, fails where rounding hides the excess. With
  the table \<open>[10, 17]\<close>, seven keys in ten buckets and the new threshold \<open>0.7f\<close>, which is
  \<open>11744051 / 2^24\<close>: the ratio \<open>7/10\<close> exceeds the threshold and the entry 17 meets it, but
  the \<open>float\<close> quotient of 7 by 10 is the threshold itself, the test
  \<open>loadFactor() > maxLFactor\<close> is false, and the bucket count stays 10.
\<close>

theorem C8_counterexample:
  "map_option bucketCount (run_fresh [10, 17] (map Insert [1, 2, 3, 4, 5, 6, 7])) = Some 10
   \<and> map_option size_hs (run_fresh [10, 17] (map Insert [1, 2, 3, 4, 5, 6, 7])) = Some 7
   \<and> map_option bucketCount
       (run_fresh [10, 17]
          (map Insert [1, 2, 3, 4, 5, 6, 7] @ [SetMaxLoadFactor (Finite (11744051 / 16777216))]))
       = Some 10
   \<and> (11744051 / 16777216 :: real) < 7 / 10
   \<and> (7 / 17 :: real) \<le> 11744051 / 16777216"
proof -
  from scenario_seven_in_ten obtain s where
    r: "run_fresh [10, 17] (map Insert [1, 2, 3, 4, 5, 6, 7]) = Some s"
    and l: "length (buckets s) = 10" and c: "countElements s = 7" by blast
  have "set_maxLoadFactor [10, 17] s (Finite (11744051 / 16777216))
          = Some (s\<lparr>maxLFactor := Finite (11744051 / 16777216)\<rparr>)"
    using l c by (simp add: set_maxLoadFactor_def Let_def loadFactor_def bucketCount_def ex_f32_div)
  then have "run_fresh [10, 17]
          (map Insert [1, 2, 3, 4, 5, 6, 7] @ [SetMaxLoadFactor (Finite (11744051 / 16777216))])
        = Some (s\<lparr>maxLFactor := Finite (11744051 / 16777216)\<rparr>)"
    unfolding run_fresh_append r by simp
  then show ?thesis using r l c by (simp add: bucketCount_def size_hs_def)
qed

text \<open>
  Claim C8, as amended: the ratios are the \<open>float\<close> quotients that the code computes, and
  they are compared as \<open>float\<close> values. In every state that the public operations reach,
  the setter of the maximal load factor returns without fault and stores the new
  threshold. If \<open>loadFactor()\<close> then exceeds it, the result is that of \<open>rehash(x)\<close> for the
  first table entry \<open>x\<close> past the current bucket count whose ratio
  \<open>static_cast<float>(elementCount) / x\<close> is at most the threshold, and the bucket count
  becomes \<open>x\<close>; if the table has no such entry, or \<open>loadFactor()\<close> does not exceed the
  threshold, only the threshold changes. The keys and \<open>size()\<close> are preserved.
\<close>

theorem C8_maxLoadFactor_setter:
  assumes wf: "wf_sizes sizes" and inv: "invar_stale sizes s"
  shows "\<exists>s'. set_maxLoadFactor sizes s m = Some s'
            \<and> maxLoadFactor s' = m
            \<and> (if f32_less m (loadFactor s)
                then (case first_candidate sizes s m of
                        Some x \<Rightarrow> rehash sizes (s\<lparr>maxLFactor := m\<rparr>) x = Some s'
                                  \<and> bucketCount s' = x
                      | None \<Rightarrow> s' = s\<lparr>maxLFactor := m\<rparr>)
                else s' = s\<lparr>maxLFactor := m\<rparr>)
            \<and> mset (iteration s') = mset (iteration s)
            \<and> size_hs s' = size_hs s"
proof -
  from set_maxLoadFactor_stale[OF wf inv, of m] obtain s' where
    "set_maxLoadFactor sizes s m = Some s'" "maxLFactor s' = m"
    "mset (iteration s') = mset (iteration s)" "countElements s' = countElements s"
    "if f32_less m (loadFactor s)
     then (case first_candidate sizes s m of
             Some x \<Rightarrow> rehash sizes (s\<lparr>maxLFactor := m\<rparr>) x = Some s' \<and> length (buckets s') = x
           | None \<Rightarrow> s' = s\<lparr>maxLFactor := m\<rparr>)
     else s' = s\<lparr>maxLFactor := m\<rparr>" by blast
  then show ?thesis
    by (auto simp: maxLoadFactor_def bucketCount_def size_hs_def split: option.splits)
qed

theorem C8_maxLoadFactor_setter_witness:
  "wf_sizes [7, 17]
   \<and> invar_stale [7, 17] \<lparr>allKeys = [(1, 1), (3, 8), (2, - 5)],
              buckets = [stale_end, Some 1, Some 2, stale_end, stale_end, stale_end, stale_end],
              countElements = 3, maxLFactor = Finite 1, currentPrimeIndex = 0\<rparr>
   \<and> (\<exists>s'. set_maxLoadFactor [7, 17] \<lparr>allKeys = [(1, 1), (3, 8), (2, - 5)],
              buckets = [stale_end, Some 1, Some 2, stale_end, stale_end, stale_end, stale_end],
              countElements = 3, maxLFactor = Finite 1, currentPrimeIndex = 0\<rparr> (Finite (1 / 4))
               = Some s'
          \<and> rehash [7, 17] \<lparr>allKeys = [(1, 1), (3, 8), (2, - 5)],
              buckets = [stale_end, Some 1, Some 2, stale_end, stale_end, stale_end, stale_end],
              countElements = 3, maxLFactor = Finite (1 / 4), currentPrimeIndex = 0\<rparr> 17 = Some s'
          \<and> maxLoadFactor s' = Finite (1 / 4) \<and> bucketCount s' = 17)
   \<and> set_maxLoadFactor [7, 17] \<lparr>allKeys = [(1, 1), (3, 8), (2, - 5)],
              buckets = [stale_end, Some 1, Some 2, stale_end, stale_end, stale_end, stale_end],
              countElements = 3, maxLFactor = Finite 1, currentPrimeIndex = 0\<rparr> (Finite (1 / 8))
       = Some \<lparr>allKeys = [(1, 1), (3, 8), (2, - 5)],
              buckets = [stale_end, Some 1, Some 2, stale_end, stale_end, stale_end, stale_end],
              countElements = 3, maxLFactor = Finite (1 / 8), currentPrimeIndex = 0\<rparr>"
proof -
  let ?s = "\<lparr>allKeys = [(1, 1), (3, 8), (2, - 5)],
             buckets = [stale_end, Some 1, Some 2, stale_end, stale_end, stale_end, stale_end],
             countElements = 3, maxLFactor = Finite 1, currentPrimeIndex = 0\<rparr>"
  have lf: "loadFactor ?s = Finite (14380471 / 33554432)"
    by (simp add: loadFactor_def bucketCount_def Suc_7 ex_f32_div)
  have f4: "first_candidate [7, 17] ?s (Finite (1 / 4)) = Some 17"
    by (simp add: first_candidate_def bucketCount_def size_hs_def Suc_7 ex_f32_div)
  have f8: "first_candidate [7, 17] ?s (Finite (1 / 8)) = None"
    by (simp add: first_candidate_def bucketCount_def size_hs_def Suc_7 ex_f32_div)
  from C8_maxLoadFactor_setter[OF ex_wf ex_invar_stale3, of "Finite (1 / 4)"]
  have a: "\<exists>s'. set_maxLoadFactor [7, 17] ?s (Finite (1 / 4)) = Some s'
            \<and> rehash [7, 17] (?s\<lparr>maxLFactor := Finite (1 / 4)\<rparr>) 17 = Some s'
            \<and> maxLoadFactor s' = Finite (1 / 4) \<and> bucketCount s' = 17"
    using lf f4 by auto
  from C8_maxLoadFactor_setter[OF ex_wf ex_invar_stale3, of "Finite (1 / 8)"]
  have b: "set_maxLoadFactor [7, 17] ?s (Finite (1 / 8)) = Some (?s\<lparr>maxLFactor := Finite (1 / 8)\<rparr>)"
    using lf f8 by auto
  show ?thesis using a b ex_wf ex_invar_stale3 by simp
qed

text \<open>
  Whenever \<open>insert\<close> of a key that is not in the set finds the load factor above the
  maximum and a later table entry, the current index advances by exactly one and the
  bucket count becomes the table entry at that next index, however far the load factor
  exceeds the maximum.
\<close>

lemma growth_to_next_index:
  assumes wf: "wf_sizes sizes" and inv: "invar sizes s"
    and new: "contains s k = Some False"
    and over: "f32_less (maxLoadFactor s) (loadFactor s)"
    and more: "currentPrimeIndex s + 1 < length sizes"
  shows "\<exists>s'. insert_key sizes s k = Some s'
            \<and> currentPrimeIndex s' = currentPrimeIndex s + 1
            \<and> bucketCount s' = sizes ! (currentPrimeIndex s + 1)"
proof -
  have "k \<notin> set (iteration s)"
    using contains_correct[OF invar_chained[OF inv] invar_bounds[OF wf inv], of k] new by simp
  moreover have "needs_growth sizes s"
    using over more by (simp add: needs_growth_def maxLoadFactor_def)
  ultimately show ?thesis
    using insert_key_spec[OF wf inv, of k] by (auto simp: bucketCount_def)
qed

text \<open>
  After a \<open>rehash\<close> that fell back to the largest entry, the current index does not name
  the bucket count, and the entry after the current index need not be larger than it.
\<close>

lemma ex_wf_235: "wf_sizes [2, 3, 5]"
  by (simp add: wf_sizes_def)

lemma scenario_stale_index:
  "\<exists>s. run_fresh [2, 3, 5] (Rehash 6 # map Insert [1, 2, 3, 4, 5, 6]) = Some s
       \<and> invar [2, 3, 5] s \<and> length (buckets s) = 5 \<and> countElements s = 6
       \<and> maxLFactor s = Finite 1 \<and> currentPrimeIndex s = 0
       \<and> set (iteration s) = {1, 2, 3, 4, 5, 6}"
proof -
  from HashSet_invar[OF ex_wf_235] obtain s0 where
    h: "HashSet [2, 3, 5] = Some s0" and inv0: "invar [2, 3, 5] s0" and e0: "allKeys s0 = []"
    and c0: "countElements s0 = 0" and m0: "maxLFactor s0 = Finite 1" and x0: "currentPrimeIndex s0 = 0"
    by blast
  have sel: "select_size [2, 3, 5] 0 6 = Some (5, 0)"
    by (simp add: select_size_def upt_rec)
  from rehash_spec[OF ex_wf_235 inv0, of 6] obtain s1 where
    r: "rehash [2, 3, 5] s0 6 = Some s1" and inv1: "invar [2, 3, 5] s1"
    and k1: "mset (iteration s1) = mset (iteration s0)"
    and c1: "countElements s1 = countElements s0" and m1: "maxLFactor s1 = maxLFactor s0"
    and s1: "select_size [2, 3, 5] (currentPrimeIndex s0) 6
               = Some (length (buckets s1), currentPrimeIndex s1)" by blast
  have l1: "length (buckets s1) = 5" and x1: "currentPrimeIndex s1 = 0"
    using s1 sel x0 by simp_all
  have "set (iteration s1) = set (iteration s0)" using k1 by (rule mset_eq_setD)
  then have e1: "set (iteration s1) = {}" using e0 by (simp add: iteration_def)
  have d: "distinct [1, 2, 3, 4, 5, 6 :: key]" by simp
  have "set [1, 2, 3, 4, 5, 6 :: key] \<inter> set (iteration s1) = {}" using e1 by simp
  moreover have "countElements s1 + length [1, 2, 3, 4, 5, 6 :: key] \<le> length (buckets s1) + 1"
    using c1 c0 l1 by simp
  moreover have "maxLFactor s1 = Finite 1" using m1 m0 by simp
  ultimately obtain s where
    i: "run [2, 3, 5] s1 (map Insert [1, 2, 3, 4, 5, 6]) = Some s" and inv: "invar [2, 3, 5] s"
    and "length (buckets s) = length (buckets s1)"
    and "countElements s = countElements s1 + length [1, 2, 3, 4, 5, 6 :: key]"
    and "maxLFactor s = Finite 1" and "currentPrimeIndex s = currentPrimeIndex s1"
    using inserts_growth_free[OF ex_wf_235 inv1 _ d] by blast
  moreover from run_inserts[OF ex_wf_235 inv1, of "[1, 2, 3, 4, 5, 6]"] i
  have "set (iteration s) = {1, 2, 3, 4, 5, 6}" using e1 by auto
  moreover have "run_fresh [2, 3, 5] (Rehash 6 # map Insert [1, 2, 3, 4, 5, 6]) = Some s"
    using h r i by (simp add: run_fresh_def)
  ultimately show ?thesis using l1 x1 c1 c0 by simp
qed

text \<open>
  Claim C10 on the code, after such a fallback: with the table \<open>[2, 3, 5]\<close>, \<open>rehash(6)\<close>
  on a fresh instance gives 5 buckets at index 0; six inserts later the load factor is
  \<open>6/5\<close>, and the seventh insert rehashes to \<open>sizes[1]\<close>: the bucket count goes from 5 to 3,
  one position back in the table, and the index becomes 1.
\<close>

theorem C10_growth_after_fallback:
  "map_option bucketCount
     (run_fresh [2, 3, 5] (Rehash 6 # map Insert [1, 2, 3, 4, 5, 6])) = Some 5
   \<and> map_option currentPrimeIndex
     (run_fresh [2, 3, 5] (Rehash 6 # map Insert [1, 2, 3, 4, 5, 6])) = Some 0
   \<and> map_option bucketCount
     (run_fresh [2, 3, 5] (Rehash 6 # map Insert [1, 2, 3, 4, 5, 6] @ [Insert 7])) = Some 3
   \<and> map_option currentPrimeIndex
     (run_fresh [2, 3, 5] (Rehash 6 # map Insert [1, 2, 3, 4, 5, 6] @ [Insert 7])) = Some 1"
proof -
  from scenario_stale_index obtain s where
    r: "run_fresh [2, 3, 5] (Rehash 6 # map Insert [1, 2, 3, 4, 5, 6]) = Some s"
    and inv: "invar [2, 3, 5] s" and l: "length (buckets s) = 5" and c: "countElements s = 6"
    and m: "maxLFactor s = Finite 1" and x: "currentPrimeIndex s = 0"
    and keys: "set (iteration s) = {1, 2, 3, 4, 5, 6}" by blast
  have g: "needs_growth [2, 3, 5] s"
    using l c m x by (simp add: needs_growth_def loadFactor_def bucketCount_def ex_f32_div)
  have new: "(7 :: key) \<notin> set (iteration s)" using keys by simp
  from insert_key_spec[OF ex_wf_235 inv, of 7] new g x obtain s' where
    i: "insert_key [2, 3, 5] s 7 = Some s'" and "currentPrimeIndex s' = 1"
    "length (buckets s') = [2, 3, 5] ! 1" by auto
  moreover have "run_fresh [2, 3, 5] ((Rehash 6 # map Insert [1, 2, 3, 4, 5, 6]) @ [Insert 7]) = Some s'"
    using r i unfolding run_fresh_def by (auto simp: run_append split: option.splits)
  ultimately show ?thesis using r l x by (simp add: bucketCount_def)
qed

end
